theory Spec2Isabelle
  imports Complex_Main "HOL-Library.AList"
begin

section \<open>Airway tree post-processing: data model\<close>

text \<open>
  The program \<^verbatim>\<open>tree_extraction/post_processing.py\<close> works on one
  \<^verbatim>\<open>networkx\<close> graph read from a GraphML file.  Node ids are strings, the
  root is the literal \<^verbatim>\<open>"0"\<close>.  A networkx \<^verbatim>\<open>Graph\<close> is a dictionary of
  node attributes together with a dictionary of dictionaries of edge attributes
  (the adjacency); both are insertion ordered, and several passes depend on that
  order, so both are association lists here.  The graph is undirected: an edge is
  stored under both of its endpoints.  Python floats are idealised as reals.
\<close>

type_synonym node_id = string

record node_attr =
  coord_x :: real
  coord_y :: real
  coord_z :: real
  lobe :: int
  level :: int
  successor_count :: "int option"

record edge_attr =
  weight :: real
  group_sizes :: string

record graph =
  node_list :: "(node_id \<times> node_attr) list"
  adj_list :: "(node_id \<times> (node_id \<times> edge_attr) list) list"

text \<open>Every exception the modelled code can raise is a value.\<close>

datatype error = KeyError | NetworkXError | ValueError | ZeroDivisionError | RecursionError

definition REMOVE_IF_GROUP_SIZE_LESS_THAN :: nat where
  "REMOVE_IF_GROUP_SIZE_LESS_THAN = 6"

definition DIAMETER_TO_WEIGHT_RATIO :: real where
  "DIAMETER_TO_WEIGHT_RATIO = 85 / 100"

definition root :: node_id where
  "root = ''0''"

subsection \<open>The networkx operations the program uses\<close>

definition number_of_nodes :: "graph \<Rightarrow> nat" where
  "number_of_nodes g = length (node_list g)"

definition node_ids :: "graph \<Rightarrow> node_id list" where
  "node_ids g = map fst (node_list g)"

text \<open>\<^verbatim>\<open>graph.nodes[n]\<close>: the attributes of a node, \<^verbatim>\<open>KeyError\<close> when absent.\<close>

definition node_at :: "graph \<Rightarrow> node_id \<Rightarrow> error + node_attr" where
  "node_at g n = (case map_of (node_list g) n of None \<Rightarrow> Inl KeyError | Some a \<Rightarrow> Inr a)"

text \<open>\<^verbatim>\<open>graph[u][v]\<close>: the attributes of an edge, \<^verbatim>\<open>KeyError\<close> when absent.\<close>

definition edge_at :: "graph \<Rightarrow> node_id \<Rightarrow> node_id \<Rightarrow> error + edge_attr" where
  "edge_at g u v =
     (case map_of (adj_list g) u of
        None \<Rightarrow> Inl KeyError
      | Some al \<Rightarrow> (case map_of al v of None \<Rightarrow> Inl KeyError | Some e \<Rightarrow> Inr e))"

text \<open>\<^verbatim>\<open>graph[n]\<close> iterated: the neighbours of a node in insertion order.\<close>

definition neighbors :: "graph \<Rightarrow> node_id \<Rightarrow> node_id list" where
  "neighbors g n = (case map_of (adj_list g) n of None \<Rightarrow> [] | Some al \<Rightarrow> map fst al)"

text \<open>
  \<^verbatim>\<open>graph.remove_node(n)\<close> raises \<^verbatim>\<open>NetworkXError\<close> when the node is absent;
  otherwise it deletes the node, its adjacency and its entry in the adjacency of
  every neighbour.
\<close>

definition remove_node :: "graph \<Rightarrow> node_id \<Rightarrow> error + graph" where
  "remove_node g n =
     (if n \<notin> set (node_ids g) then Inl NetworkXError
      else Inr \<lparr>node_list = AList.delete n (node_list g),
                adj_list = map (\<lambda>(u, al). (u, AList.delete n al)) (AList.delete n (adj_list g))\<rparr>)"

text \<open>
  \<^verbatim>\<open>graph.add_edge(u, v, weight=w, group_sizes=s)\<close> between two nodes that are
  present: the edge data is stored under both endpoints, replacing the data of an
  existing edge in place and appending a new neighbour last.  The program calls it
  only from \<^verbatim>\<open>merge_edges\<close>, after \<^verbatim>\<open>distance\<close> has read the attributes of
  both endpoints.
\<close>

definition adj_put :: "node_id \<Rightarrow> node_id \<Rightarrow> edge_attr \<Rightarrow>
    (node_id \<times> (node_id \<times> edge_attr) list) list \<Rightarrow> (node_id \<times> (node_id \<times> edge_attr) list) list" where
  "adj_put u v e adj =
     AList.update u (AList.update v e (case map_of adj u of None \<Rightarrow> [] | Some al \<Rightarrow> al)) adj"

definition add_edge :: "graph \<Rightarrow> node_id \<Rightarrow> node_id \<Rightarrow> edge_attr \<Rightarrow> graph" where
  "add_edge g u v e = g\<lparr>adj_list := adj_put v u e (adj_put u v e (adj_list g))\<rparr>"

subsection \<open>Breadth-first search\<close>

text \<open>
  \<^verbatim>\<open>nx.bfs_edges(graph, "0")\<close> takes the nodes from a queue; for each it walks
  the neighbours in adjacency order and reports every neighbour not seen before,
  which is marked and queued.  \<open>bfs_blocks\<close> returns, for each dequeued node in
  order, the children found for it.
\<close>

fun unseen :: "node_id list \<Rightarrow> node_id list \<Rightarrow> node_id list" where
  "unseen vis [] = []"
| "unseen vis (c # cs) = (if c \<in> set vis then unseen vis cs else c # unseen (c # vis) cs)"

definition adj_ids :: "graph \<Rightarrow> node_id set" where
  "adj_ids g = (\<Union>(u, al) \<in> set (adj_list g). fst ` set al)"

lemma unseen_subset: "set (unseen vis cs) \<subseteq> set cs - set vis"
proof (induction cs arbitrary: vis)
  case Nil
  show ?case by simp
next
  case (Cons c cs)
  from Cons [of vis] Cons [of "c # vis"] show ?case by auto
qed

lemma unseen_distinct: "distinct (unseen vis cs)"
proof (induction cs arbitrary: vis)
  case Nil
  show ?case by simp
next
  case (Cons c cs)
  have "c \<notin> set (unseen (c # vis) cs)"
    using unseen_subset [of "c # vis" cs] by auto
  with Cons show ?case by simp
qed

lemma neighbors_adj_ids: "set (neighbors g p) \<subseteq> adj_ids g"
proof (cases "map_of (adj_list g) p")
  case None
  then show ?thesis by (simp add: neighbors_def)
next
  case (Some al)
  then have "(p, al) \<in> set (adj_list g)" by (rule map_of_SomeD)
  then show ?thesis using Some by (auto simp: neighbors_def adj_ids_def)
qed

lemma finite_adj_ids: "finite (adj_ids g)"
  by (auto simp: adj_ids_def)

lemma bfs_measure:
  assumes "cs = unseen vis (neighbors g p)"
  shows "card (adj_ids g - set (cs @ vis)) + length cs = card (adj_ids g - set vis)"
proof -
  have sub: "set cs \<subseteq> adj_ids g - set vis"
    using assms unseen_subset [of vis "neighbors g p"] neighbors_adj_ids [of g p] by auto
  have dis: "distinct cs" using assms unseen_distinct by simp
  have "adj_ids g - set vis = (adj_ids g - set (cs @ vis)) \<union> set cs"
    using sub by auto
  moreover have "(adj_ids g - set (cs @ vis)) \<inter> set cs = {}" by auto
  ultimately have "card (adj_ids g - set vis) = card (adj_ids g - set (cs @ vis)) + card (set cs)"
    using card_Un_disjoint [of "adj_ids g - set (cs @ vis)" "set cs"] finite_adj_ids [of g]
    by simp
  then show ?thesis using dis by (simp add: distinct_card)
qed

function bfs_blocks :: "graph \<Rightarrow> node_id list \<Rightarrow> node_id list \<Rightarrow> (node_id \<times> node_id list) list" where
  "bfs_blocks g [] vis = []"
| "bfs_blocks g (p # queue) vis =
     (let cs = unseen vis (neighbors g p)
      in (p, cs) # bfs_blocks g (queue @ cs) (cs @ vis))"
  by pat_completeness auto
termination
proof (relation "measure (\<lambda>(g, queue, vis). card (adj_ids g - set vis) + length queue)")
  show "wf (measure (\<lambda>(g, queue, vis). card (adj_ids g - set vis) + length queue))" by simp
next
  fix g p queue vis cs
  assume "cs = unseen vis (neighbors g p)"
  from bfs_measure [OF this]
  show "((g, queue @ cs, cs @ vis), (g, p # queue, vis))
          \<in> measure (\<lambda>(g, queue, vis). card (adj_ids g - set vis) + length queue)"
    by simp
qed

text \<open>
  \<^verbatim>\<open>G.neighbors(source)\<close> raises \<^verbatim>\<open>NetworkXError\<close> when the source is not a
  node of the graph, so each of the three traversals does.
\<close>

definition bfs_edges :: "graph \<Rightarrow> node_id \<Rightarrow> error + (node_id \<times> node_id) list" where
  "bfs_edges g s =
     (if map_of (adj_list g) s = None then Inl NetworkXError
      else Inr (concat (map (\<lambda>(p, cs). map (Pair p) cs) (bfs_blocks g [s] [s]))))"

text \<open>
  \<^verbatim>\<open>nx.bfs_successors\<close> groups the edges by parent:
  \<^verbatim>\<open>
    parent = source; children = []
    for p, c in bfs_edges(G, source):
        if p == parent: children.append(c); continue
        yield (parent, children)
        children = [c]; parent = p
    yield (parent, children)
  \<close>
  Each parent with a child is reported once with its children; the last
  \<^verbatim>\<open>yield\<close> reports the source with no children when there is no edge at all.
\<close>

definition bfs_successors :: "graph \<Rightarrow> node_id \<Rightarrow> error + (node_id \<times> node_id list) list" where
  "bfs_successors g s =
     (if map_of (adj_list g) s = None then Inl NetworkXError
      else (let bs = filter (\<lambda>(p, cs). cs \<noteq> []) (bfs_blocks g [s] [s])
            in Inr (if bs = [] then [(s, [])] else bs)))"

text \<open>\<^verbatim>\<open>nx.bfs_predecessors\<close> reports \<^verbatim>\<open>(child, parent)\<close> for every edge.\<close>

definition bfs_predecessors :: "graph \<Rightarrow> node_id \<Rightarrow> error + (node_id \<times> node_id) list" where
  "bfs_predecessors g s =
     (case bfs_edges g s of Inl e \<Rightarrow> Inl e | Inr es \<Rightarrow> Inr (map (\<lambda>(p, c). (c, p)) es))"

text \<open>\<^verbatim>\<open>dict(pairs)\<close>: later pairs replace the value of an earlier key in place.\<close>

definition py_dict :: "('k \<times> 'v) list \<Rightarrow> ('k \<times> 'v) list" where
  "py_dict kvs = foldl (\<lambda>d (k, v). AList.update k v d) [] kvs"

subsection \<open>Strings of caliber samples\<close>

text \<open>
  \<^verbatim>\<open>group_sizes\<close> is text: integers separated by white space.  The model reads
  ASCII text; \<^verbatim>\<open>str.split()\<close> cuts at runs of white space and \<^verbatim>\<open>int\<close> reads
  an optional sign and decimal digits (single underscores between digits allowed),
  raising \<^verbatim>\<open>ValueError\<close> otherwise.
\<close>

definition is_space :: "char \<Rightarrow> bool" where
  "is_space c = (let n = (of_char c :: nat) in n = 32 \<or> (9 \<le> n \<and> n \<le> 13) \<or> (28 \<le> n \<and> n \<le> 31))"

fun split_aux :: "string \<Rightarrow> string \<Rightarrow> string list" where
  "split_aux tok [] = (if tok = [] then [] else [tok])"
| "split_aux tok (c # cs) =
     (if is_space c then (if tok = [] then split_aux [] cs else tok # split_aux [] cs)
      else split_aux (tok @ [c]) cs)"

definition py_split :: "string \<Rightarrow> string list" where
  "py_split s = split_aux [] s"

definition digit_val :: "char \<Rightarrow> nat option" where
  "digit_val c = (let n = (of_char c :: nat) in if 48 \<le> n \<and> n \<le> 57 then Some (n - 48) else None)"

fun py_digits :: "nat \<Rightarrow> bool \<Rightarrow> string \<Rightarrow> nat option" where
  "py_digits acc lastd [] = (if lastd then Some acc else None)"
| "py_digits acc lastd (c # cs) =
     (case digit_val c of
        Some d \<Rightarrow> py_digits (10 * acc + d) True cs
      | None \<Rightarrow> if c = CHR ''_'' \<and> lastd \<and> cs \<noteq> [] then py_digits acc False cs else None)"

definition py_int :: "string \<Rightarrow> error + int" where
  "py_int s =
     (case s of
        [] \<Rightarrow> Inl ValueError
      | c # cs \<Rightarrow>
          if c = CHR ''-'' then (case py_digits 0 False cs of None \<Rightarrow> Inl ValueError | Some n \<Rightarrow> Inr (- int n))
          else if c = CHR ''+'' then (case py_digits 0 False cs of None \<Rightarrow> Inl ValueError | Some n \<Rightarrow> Inr (int n))
          else (case py_digits 0 False s of None \<Rightarrow> Inl ValueError | Some n \<Rightarrow> Inr (int n)))"

text \<open>\<^verbatim>\<open>list(map(int, s.split()))\<close>\<close>

fun map_int :: "string list \<Rightarrow> error + int list" where
  "map_int [] = Inr []"
| "map_int (t # ts) =
     (case py_int t of
        Inl e \<Rightarrow> Inl e
      | Inr n \<Rightarrow> (case map_int ts of Inl e \<Rightarrow> Inl e | Inr ns \<Rightarrow> Inr (n # ns)))"

subsection \<open>Mathematical helping functions\<close>

text \<open>\<^verbatim>\<open>math.sqrt\<close> raises \<^verbatim>\<open>ValueError\<close> on a negative argument.\<close>

definition calc_diameter :: "real \<Rightarrow> error + real" where
  "calc_diameter area = (if 4 * area / pi < 0 then Inl ValueError else Inr (sqrt (4 * area / pi)))"

definition distance :: "graph \<Rightarrow> node_id \<Rightarrow> node_id \<Rightarrow> error + real" where
  "distance g node_a node_b =
     (case node_at g node_a of
        Inl e \<Rightarrow> Inl e
      | Inr fr \<Rightarrow>
          (case node_at g node_b of
             Inl e \<Rightarrow> Inl e
           | Inr to \<Rightarrow>
               Inr (sqrt ((coord_x fr - coord_x to)\<^sup>2 + (coord_y fr - coord_y to)\<^sup>2
                          + (coord_z fr - coord_z to)\<^sup>2))))"

subsection \<open>NetworkX helping functions\<close>

fun remove_nodes :: "graph \<Rightarrow> node_id list \<Rightarrow> error + graph" where
  "remove_nodes g [] = Inr g"
| "remove_nodes g (n # ns) =
     (case remove_node g n of Inl e \<Rightarrow> Inl e | Inr g' \<Rightarrow> remove_nodes g' ns)"

definition combine_group_sizes :: "graph \<Rightarrow> node_id \<Rightarrow> node_id \<Rightarrow> node_id \<Rightarrow> error + string" where
  "combine_group_sizes g node_pre node node_suc =
     (case edge_at g node_pre node of
        Inl e \<Rightarrow> Inl e
      | Inr e1 \<Rightarrow>
          (case edge_at g node node_suc of
             Inl e \<Rightarrow> Inl e
           | Inr e2 \<Rightarrow> Inr (group_sizes e1 @ '' '' @ group_sizes e2)))"

definition merge_edges :: "graph \<Rightarrow> node_id \<Rightarrow> node_id \<Rightarrow> node_id \<Rightarrow> error + graph" where
  "merge_edges g predecessor node successor =
     (case distance g predecessor successor of
        Inl e \<Rightarrow> Inl e
      | Inr w \<Rightarrow>
          (case combine_group_sizes g predecessor node successor of
             Inl e \<Rightarrow> Inl e
           | Inr gs \<Rightarrow> Inr (add_edge g predecessor successor \<lparr>weight = w, group_sizes = gs\<rparr>)))"

section \<open>Removing nodes from the graph\<close>

subsection \<open>\<^verbatim>\<open>remove_minor_edges\<close>\<close>

fun minor_loop :: "graph \<Rightarrow> node_id set \<Rightarrow> (node_id \<times> node_id) list \<Rightarrow> error + node_id list" where
  "minor_loop g has_successors [] = Inr []"
| "minor_loop g has_successors ((fr, to) # es) =
     (if to \<notin> has_successors then
        (case edge_at g fr to of
           Inl e \<Rightarrow> Inl e
         | Inr ed \<Rightarrow>
             if count_list (group_sizes ed) CHR '' '' < REMOVE_IF_GROUP_SIZE_LESS_THAN
             then (case minor_loop g has_successors es of Inl e \<Rightarrow> Inl e | Inr rm \<Rightarrow> Inr (to # rm))
             else minor_loop g has_successors es)
      else minor_loop g has_successors es)"

definition minor_edge_nodes :: "graph \<Rightarrow> error + node_id list" where
  "minor_edge_nodes g =
     (case bfs_successors g root of
        Inl e \<Rightarrow> Inl e
      | Inr ss \<Rightarrow>
          (case bfs_edges g root of
             Inl e \<Rightarrow> Inl e
           | Inr es \<Rightarrow> minor_loop g (set (map fst ss)) es))"

definition remove_minor_edges :: "graph \<Rightarrow> error + graph" where
  "remove_minor_edges g =
     (case minor_edge_nodes g of Inl e \<Rightarrow> Inl e | Inr rm \<Rightarrow> remove_nodes g rm)"

subsection \<open>\<^verbatim>\<open>straighten_edges\<close>\<close>

text \<open>
  The loop merges edges in the graph while it runs; the traversals were taken
  before it.  Its state is the graph, \<^verbatim>\<open>nodes_to_be_removed\<close> and
  \<^verbatim>\<open>cant_be_removed\<close>.
\<close>

fun straighten_loop :: "(node_id \<times> node_id) list \<Rightarrow> (node_id \<times> node_id) list \<Rightarrow>
    graph \<Rightarrow> node_id list \<Rightarrow> node_id set \<Rightarrow> error + graph \<times> node_id list" where
  "straighten_loop predecessors [] g rm cant = Inr (g, rm)"
| "straighten_loop predecessors ((node, successor) # rest) g rm cant =
     (if node \<notin> cant then
        (case map_of predecessors node of
           None \<Rightarrow> Inl KeyError
         | Some predecessor \<Rightarrow>
             (case merge_edges g predecessor node successor of
                Inl e \<Rightarrow> Inl e
              | Inr g' \<Rightarrow> straighten_loop predecessors rest g' (rm @ [node]) (insert successor cant)))
      else straighten_loop predecessors rest g rm cant)"

definition only_single_successor :: "(node_id \<times> node_id list) list \<Rightarrow> (node_id \<times> node_id) list" where
  "only_single_successor ss = map (\<lambda>(n, s). (n, hd s)) (filter (\<lambda>(n, s). length s = 1) ss)"

definition straighten_edges :: "graph \<Rightarrow> error + graph" where
  "straighten_edges g =
     (case bfs_predecessors g root of
        Inl e \<Rightarrow> Inl e
      | Inr ps \<Rightarrow>
          (case bfs_successors g root of
             Inl e \<Rightarrow> Inl e
           | Inr ss \<Rightarrow>
               (case straighten_loop (py_dict ps) (only_single_successor ss) g [] {root} of
                  Inl e \<Rightarrow> Inl e
                | Inr (g', rm) \<Rightarrow> remove_nodes g' rm)))"

subsection \<open>\<^verbatim>\<open>merge_close_nodes\<close>\<close>

text \<open>
  The test of one edge: \<^verbatim>\<open>nums = list(map(int, curr["group_sizes"].split()))\<close>,
  \<^verbatim>\<open>diameter = calc_diameter(sum(nums) / len(nums))\<close> and
  \<^verbatim>\<open>weight < diameter * DIAMETER_TO_WEIGHT_RATIO\<close>.
\<close>

definition is_close :: "edge_attr \<Rightarrow> error + bool" where
  "is_close ed =
     (case map_int (py_split (group_sizes ed)) of
        Inl e \<Rightarrow> Inl e
      | Inr nums \<Rightarrow>
          if length nums = 0 then Inl ZeroDivisionError
          else (case calc_diameter (real_of_int (sum_list nums) / real (length nums)) of
                  Inl e \<Rightarrow> Inl e
                | Inr diameter \<Rightarrow> Inr (weight ed < diameter * DIAMETER_TO_WEIGHT_RATIO)))"

text \<open>
  The loop leaves the graph alone; its state is \<^verbatim>\<open>nodes_to_be_removed\<close>,
  \<^verbatim>\<open>edges_to_be_merged\<close> and \<^verbatim>\<open>cant_be_removed\<close>.
\<close>

fun close_loop :: "graph \<Rightarrow> (node_id \<times> node_id list) list \<Rightarrow> (node_id \<times> node_id) list \<Rightarrow>
    node_id list \<Rightarrow> (node_id \<times> node_id \<times> node_id) list \<Rightarrow> node_id set \<Rightarrow>
    error + node_id list \<times> (node_id \<times> node_id \<times> node_id) list" where
  "close_loop g has_successors [] rm em cant = Inr (rm, em)"
| "close_loop g has_successors ((predecessor, node) # es) rm em cant =
     (if node \<notin> cant then
        (case edge_at g predecessor node of
           Inl e \<Rightarrow> Inl e
         | Inr ed \<Rightarrow>
             (case is_close ed of
                Inl e \<Rightarrow> Inl e
              | Inr c \<Rightarrow>
                  if c then
                    (case map_of has_successors node of
                       Some ss \<Rightarrow>
                         close_loop g has_successors es (rm @ [node])
                           (em @ map (\<lambda>successor. (predecessor, node, successor)) ss) (cant \<union> set ss)
                     | None \<Rightarrow> close_loop g has_successors es (rm @ [node]) em cant)
                  else close_loop g has_successors es rm em cant))
      else close_loop g has_successors es rm em cant)"

fun merge_all :: "graph \<Rightarrow> (node_id \<times> node_id \<times> node_id) list \<Rightarrow> error + graph" where
  "merge_all g [] = Inr g"
| "merge_all g ((predecessor, node, successor) # em) =
     (case merge_edges g predecessor node successor of
        Inl e \<Rightarrow> Inl e
      | Inr g' \<Rightarrow> merge_all g' em)"

definition close_nodes :: "graph \<Rightarrow> error + node_id list \<times> (node_id \<times> node_id \<times> node_id) list" where
  "close_nodes g =
     (case bfs_successors g root of
        Inl e \<Rightarrow> Inl e
      | Inr ss \<Rightarrow>
          (case bfs_edges g root of
             Inl e \<Rightarrow> Inl e
           | Inr es \<Rightarrow> close_loop g (py_dict ss) es [] [] {root}))"

definition merge_close_nodes :: "graph \<Rightarrow> error + graph" where
  "merge_close_nodes g =
     (case close_nodes g of
        Inl e \<Rightarrow> Inl e
      | Inr (rm, em) \<Rightarrow>
          (case merge_all g em of Inl e \<Rightarrow> Inl e | Inr g' \<Rightarrow> remove_nodes g' rm))"

subsection \<open>\<^verbatim>\<open>remove_children_without_children\<close>\<close>

text \<open>
  \<^verbatim>\<open>nodes_to_check\<close> is a Python set; it is a list without duplicates here, in
  the order the nodes were added.  Which order Python walks the set in decides only
  the order of the removals.
\<close>

definition check_round :: "(node_id \<times> node_id list) list \<Rightarrow> node_id list \<Rightarrow> node_id list" where
  "check_round successors nodes_to_check =
     (let new_nodes = concat (map (\<lambda>node. case map_of successors node of None \<Rightarrow> [] | Some ss \<Rightarrow> ss)
                                  nodes_to_check)
      in nodes_to_check @ filter (\<lambda>n. n \<notin> set nodes_to_check) (remdups new_nodes))"

definition nodes_to_check :: "(node_id \<times> node_id list) list \<Rightarrow> node_id list" where
  "nodes_to_check successors = check_round successors (check_round successors (check_round successors [root]))"

definition childless_nodes :: "graph \<Rightarrow> error + node_id list" where
  "childless_nodes g =
     (case bfs_successors g root of
        Inl e \<Rightarrow> Inl e
      | Inr ss \<Rightarrow>
          Inr (filter (\<lambda>adj. map_of (py_dict ss) adj = None) (nodes_to_check (py_dict ss))))"

definition remove_children_without_children :: "graph \<Rightarrow> error + graph" where
  "remove_children_without_children g =
     (case childless_nodes g of Inl e \<Rightarrow> Inl e | Inr rm \<Rightarrow> remove_nodes g rm)"

subsection \<open>The node-removal loop of \<^verbatim>\<open>main\<close>\<close>

definition removal_cycle :: "graph \<Rightarrow> error + graph" where
  "removal_cycle g =
     (case remove_minor_edges g of
        Inl e \<Rightarrow> Inl e
      | Inr g1 \<Rightarrow>
          (case straighten_edges g1 of
             Inl e \<Rightarrow> Inl e
           | Inr g2 \<Rightarrow>
               (case merge_close_nodes g2 of
                  Inl e \<Rightarrow> Inl e
                | Inr g3 \<Rightarrow> remove_children_without_children g3)))"

text \<open>
  \<^verbatim>\<open>while True: ... if node_count == graph.number_of_nodes(): break\<close>.  The
  first argument bounds the number of cycles; \<open>None\<close> says the bound was reached
  before the loop left.  The result carries \<^verbatim>\<open>iteration\<close>.
\<close>

fun removal_loop :: "nat \<Rightarrow> nat \<Rightarrow> graph \<Rightarrow> (error + nat \<times> graph) option" where
  "removal_loop 0 iteration g = None"
| "removal_loop (Suc fuel) iteration g =
     (case removal_cycle g of
        Inl e \<Rightarrow> Some (Inl e)
      | Inr g' \<Rightarrow>
          if number_of_nodes g = number_of_nodes g' then Some (Inr (iteration + 1, g'))
          else removal_loop fuel (iteration + 1) g')"

section \<open>Recomputing attributes\<close>

text \<open>
  The two folds below are recursive Python functions over the dictionary of
  breadth-first successors.  Python bounds the depth of recursion and raises
  \<^verbatim>\<open>RecursionError\<close> beyond it; the bound is the first argument.
\<close>

subsection \<open>\<^verbatim>\<open>assign_children_count\<close>\<close>

fun successor_count_fn :: "nat \<Rightarrow> (node_id \<times> node_id list) list \<Rightarrow> node_id \<Rightarrow>
      (node_id \<times> int) list \<Rightarrow> error + int \<times> (node_id \<times> int) list"
  and successor_counts :: "nat \<Rightarrow> (node_id \<times> node_id list) list \<Rightarrow> node_id list \<Rightarrow>
      (node_id \<times> int) list \<Rightarrow> error + int list \<times> (node_id \<times> int) list" where
  "successor_count_fn 0 successors curr_node all_successors = Inl RecursionError"
| "successor_count_fn (Suc limit) successors curr_node all_successors =
     (case map_of successors curr_node of
        Some ss \<Rightarrow>
          (case successor_counts limit successors ss all_successors of
             Inl e \<Rightarrow> Inl e
           | Inr (counts, all_successors') \<Rightarrow>
               Inr (sum_list counts + 1, AList.update curr_node (sum_list counts) all_successors'))
      | None \<Rightarrow> Inr (0 + 1, AList.update curr_node 0 all_successors))"
| "successor_counts limit successors [] all_successors = Inr ([], all_successors)"
| "successor_counts limit successors (succ # ss) all_successors =
     (case successor_count_fn limit successors succ all_successors of
        Inl e \<Rightarrow> Inl e
      | Inr (c, all_successors') \<Rightarrow>
          (case successor_counts limit successors ss all_successors' of
             Inl e \<Rightarrow> Inl e
           | Inr (cs, all_successors'') \<Rightarrow> Inr (c # cs, all_successors'')))"

definition set_successor_count :: "graph \<Rightarrow> node_id \<Rightarrow> int \<Rightarrow> error + graph" where
  "set_successor_count g node c =
     (case map_of (node_list g) node of
        None \<Rightarrow> Inl KeyError
      | Some a \<Rightarrow> Inr (g\<lparr>node_list := AList.update node (a\<lparr>successor_count := Some c\<rparr>) (node_list g)\<rparr>))"

fun store_counts :: "graph \<Rightarrow> (node_id \<times> int) list \<Rightarrow> error + graph" where
  "store_counts g [] = Inr g"
| "store_counts g ((node, c) # rest) =
     (case set_successor_count g node c of Inl e \<Rightarrow> Inl e | Inr g' \<Rightarrow> store_counts g' rest)"

definition assign_children_count :: "nat \<Rightarrow> graph \<Rightarrow> error + graph" where
  "assign_children_count limit g =
     (case bfs_successors g root of
        Inl e \<Rightarrow> Inl e
      | Inr ss \<Rightarrow>
          (case successor_count_fn limit (py_dict ss) root [] of
             Inl e \<Rightarrow> Inl e
           | Inr (c, all_successors) \<Rightarrow> store_counts g all_successors))"

subsection \<open>\<^verbatim>\<open>get_successor_lobes\<close>\<close>

text \<open>
  Every call of the inner function makes one dictionary \<^verbatim>\<open>lobes\<close>, stores
  \<^emph>\<open>that object\<close> in \<^verbatim>\<open>all_successors\<close>, then adds the node's own lobe to it and
  returns it.  The dictionaries therefore live in a store, \<^verbatim>\<open>all_successors\<close>
  and the return value hold addresses, and a write through one reference is seen
  through the other.
\<close>

type_synonym lobe_dict = "(int \<times> int) list"

record lobes_state =
  heap :: "lobe_dict list"
  all_successors :: "(node_id \<times> nat) list"

definition deref :: "lobe_dict list \<Rightarrow> nat \<Rightarrow> lobe_dict" where
  "deref h a = (if a < length h then h ! a else [])"

text \<open>\<^verbatim>\<open>lobes[key] = lobes.get(key, 0) + occ\<close>\<close>

definition dict_add :: "lobe_dict \<Rightarrow> int \<Rightarrow> int \<Rightarrow> lobe_dict" where
  "dict_add lobes key occ =
     AList.update key ((case map_of lobes key of None \<Rightarrow> 0 | Some v \<Rightarrow> v) + occ) lobes"

definition add_items :: "lobe_dict \<Rightarrow> lobe_dict \<Rightarrow> lobe_dict" where
  "add_items lobes items = foldl (\<lambda>l (key, occ). dict_add l key occ) lobes items"

fun successor_lobes :: "nat \<Rightarrow> graph \<Rightarrow> (node_id \<times> node_id list) list \<Rightarrow> node_id \<Rightarrow>
      lobes_state \<Rightarrow> error + nat \<times> lobes_state"
  and child_lobes :: "nat \<Rightarrow> graph \<Rightarrow> (node_id \<times> node_id list) list \<Rightarrow> nat \<Rightarrow> node_id list \<Rightarrow>
      lobes_state \<Rightarrow> error + lobes_state" where
  "successor_lobes 0 g successors curr_node st = Inl RecursionError"
| "successor_lobes (Suc limit) g successors curr_node st =
     (let lobes = length (heap st);
          st1 = st\<lparr>heap := heap st @ [[]]\<rparr>
      in (case (case map_of successors curr_node of
                  Some ss \<Rightarrow> child_lobes limit g successors lobes ss st1
                | None \<Rightarrow> Inr st1) of
            Inl e \<Rightarrow> Inl e
          | Inr st2 \<Rightarrow>
              (let st3 = st2\<lparr>all_successors := AList.update curr_node lobes (all_successors st2)\<rparr>
               in (case node_at g curr_node of
                     Inl e \<Rightarrow> Inl e
                   | Inr a \<Rightarrow>
                       if lobe a \<noteq> 0
                       then Inr (lobes, st3\<lparr>heap := (heap st3)[lobes := dict_add (deref (heap st3) lobes) (lobe a) 1]\<rparr>)
                       else Inr (lobes, st3)))))"
| "child_lobes limit g successors lobes [] st = Inr st"
| "child_lobes limit g successors lobes (succ # ss) st =
     (case successor_lobes limit g successors succ st of
        Inl e \<Rightarrow> Inl e
      | Inr (r, st') \<Rightarrow>
          child_lobes limit g successors lobes ss
            (st'\<lparr>heap := (heap st')[lobes := add_items (deref (heap st') lobes) (deref (heap st') r)]\<rparr>))"

text \<open>With \<^verbatim>\<open>return_count=True\<close>: the dictionaries that \<^verbatim>\<open>all_successors\<close> refers to.\<close>

definition get_successor_lobe_counts :: "nat \<Rightarrow> graph \<Rightarrow> error + (node_id \<times> lobe_dict) list" where
  "get_successor_lobe_counts limit g =
     (case bfs_successors g root of
        Inl e \<Rightarrow> Inl e
      | Inr ss \<Rightarrow>
          (case successor_lobes limit g (py_dict ss) root \<lparr>heap = [], all_successors = []\<rparr> of
             Inl e \<Rightarrow> Inl e
           | Inr (r, st) \<Rightarrow> Inr (map (\<lambda>(node, a). (node, deref (heap st) a)) (all_successors st))))"

text \<open>Without it: \<^verbatim>\<open>{lobe: set(occ.keys()) for lobe, occ in all_successors.items()}\<close>.\<close>

definition get_successor_lobes :: "nat \<Rightarrow> graph \<Rightarrow> error + (node_id \<times> int list) list" where
  "get_successor_lobes limit g =
     (case get_successor_lobe_counts limit g of
        Inl e \<Rightarrow> Inl e
      | Inr al \<Rightarrow> Inr (map (\<lambda>(node, occ). (node, map fst occ)) al))"

section \<open>Recoloring\<close>

definition set_lobe :: "graph \<Rightarrow> node_id \<Rightarrow> int \<Rightarrow> error + graph" where
  "set_lobe g node c =
     (case map_of (node_list g) node of
        None \<Rightarrow> Inl KeyError
      | Some a \<Rightarrow> Inr (g\<lparr>node_list := AList.update node (a\<lparr>lobe := c\<rparr>) (node_list g)\<rparr>))"

subsection \<open>\<^verbatim>\<open>recolor_if_all_adjacent_have_different_color\<close>\<close>

text \<open>\<^verbatim>\<open>{n[adj]['lobe'] for adj in graph[node] if n[adj]['lobe'] != 0}\<close>\<close>

fun lobes_of :: "graph \<Rightarrow> node_id list \<Rightarrow> error + int list" where
  "lobes_of g [] = Inr []"
| "lobes_of g (adj # adjs) =
     (case node_at g adj of
        Inl e \<Rightarrow> Inl e
      | Inr a \<Rightarrow>
          (case lobes_of g adjs of
             Inl e \<Rightarrow> Inl e
           | Inr ls \<Rightarrow> Inr (if lobe a \<noteq> 0 then lobe a # ls else ls)))"

definition adjacent_lobes :: "graph \<Rightarrow> node_id \<Rightarrow> error + int list" where
  "adjacent_lobes g node =
     (case map_of (adj_list g) node of
        None \<Rightarrow> Inl KeyError
      | Some al \<Rightarrow> (case lobes_of g (map fst al) of Inl e \<Rightarrow> Inl e | Inr ls \<Rightarrow> Inr (remdups ls)))"

text \<open>\<^verbatim>\<open>d[key] += k\<close> reads the entry first: \<^verbatim>\<open>KeyError\<close> when it is absent.\<close>

definition dict_incr :: "lobe_dict \<Rightarrow> int \<Rightarrow> int \<Rightarrow> error + lobe_dict" where
  "dict_incr d key k =
     (case map_of d key of None \<Rightarrow> Inl KeyError | Some v \<Rightarrow> Inr (AList.update key (v + k) d))"

text \<open>
  The body of the loop for one node.  The three statements of the innermost block
  are modelled one by one:
  \<^verbatim>\<open>
    n[node]['lobe'] = surrounding_lobe
    root_successors[n[node]['lobe']] -= 1
    root_successors[surrounding_lobe] += 1
  \<close>
\<close>

definition recolor_adjacent_step :: "node_id \<Rightarrow> graph \<times> lobe_dict \<Rightarrow> error + graph \<times> lobe_dict" where
  "recolor_adjacent_step node st =
     (case st of (g, root_successors) \<Rightarrow>
      (case node_at g node of
         Inl e \<Rightarrow> Inl e
       | Inr a \<Rightarrow>
           if lobe a \<noteq> 0 then
             (case adjacent_lobes g node of
                Inl e \<Rightarrow> Inl e
              | Inr ls \<Rightarrow>
                  if length ls = 1 then
                    (let surrounding_lobe = hd ls in
                     if surrounding_lobe \<noteq> lobe a then
                       (case map_of root_successors (lobe a) of
                          None \<Rightarrow> Inl KeyError
                        | Some occ \<Rightarrow>
                            if occ > 1 then
                              (case set_lobe g node surrounding_lobe of
                                 Inl e \<Rightarrow> Inl e
                               | Inr g1 \<Rightarrow>
                                   (case node_at g1 node of
                                      Inl e \<Rightarrow> Inl e
                                    | Inr a1 \<Rightarrow>
                                        (case dict_incr root_successors (lobe a1) (- 1) of
                                           Inl e \<Rightarrow> Inl e
                                         | Inr rs1 \<Rightarrow>
                                             (case dict_incr rs1 surrounding_lobe 1 of
                                                Inl e \<Rightarrow> Inl e
                                              | Inr rs2 \<Rightarrow> Inr (g1, rs2)))))
                            else Inr st)
                     else Inr st)
                  else Inr st)
           else Inr st))"

fun recolor_adjacent_loop :: "node_id list \<Rightarrow> graph \<times> lobe_dict \<Rightarrow> error + graph \<times> lobe_dict" where
  "recolor_adjacent_loop [] st = Inr st"
| "recolor_adjacent_loop (node # nodes) st =
     (case recolor_adjacent_step node st of
        Inl e \<Rightarrow> Inl e
      | Inr st' \<Rightarrow> recolor_adjacent_loop nodes st')"

text \<open>The pass, returning the graph and the final \<^verbatim>\<open>root_successors\<close>.\<close>

definition recolor_adjacent_run :: "nat \<Rightarrow> graph \<Rightarrow> error + graph \<times> lobe_dict" where
  "recolor_adjacent_run limit g =
     (case get_successor_lobe_counts limit g of
        Inl e \<Rightarrow> Inl e
      | Inr al \<Rightarrow>
          (case map_of al root of
             None \<Rightarrow> Inl KeyError
           | Some root_successors \<Rightarrow> recolor_adjacent_loop (node_ids g) (g, root_successors)))"

definition recolor_if_all_adjacent_have_different_color :: "nat \<Rightarrow> graph \<Rightarrow> error + graph" where
  "recolor_if_all_adjacent_have_different_color limit g =
     (case recolor_adjacent_run limit g of Inl e \<Rightarrow> Inl e | Inr (g', rs) \<Rightarrow> Inr g')"

subsection \<open>\<^verbatim>\<open>recolor_if_successors_all_different_color\<close>\<close>

definition recolor_successors_step :: "node_id \<times> int list \<Rightarrow> graph \<Rightarrow> error + graph" where
  "recolor_successors_step item g =
     (case item of (node, node_lobes) \<Rightarrow>
      (case node_at g node of
         Inl e \<Rightarrow> Inl e
       | Inr a \<Rightarrow>
           if lobe a \<noteq> 0 then
             (if length node_lobes = 1 \<and> lobe a \<notin> set node_lobes
              then set_lobe g node (hd node_lobes)
              else Inr g)
           else Inr g))"

fun recolor_successors_loop :: "(node_id \<times> int list) list \<Rightarrow> graph \<Rightarrow> error + graph" where
  "recolor_successors_loop [] g = Inr g"
| "recolor_successors_loop (item # items) g =
     (case recolor_successors_step item g of
        Inl e \<Rightarrow> Inl e
      | Inr g' \<Rightarrow> recolor_successors_loop items g')"

definition recolor_if_successors_all_different_color :: "nat \<Rightarrow> graph \<Rightarrow> error + graph" where
  "recolor_if_successors_all_different_color limit g =
     (case get_successor_lobes limit g of
        Inl e \<Rightarrow> Inl e
      | Inr items \<Rightarrow> recolor_successors_loop items g)"

subsection \<open>\<^verbatim>\<open>recolor_entire_subtree_to_majority_at_level_4_or_5\<close>\<close>

text \<open>\<^verbatim>\<open>set_attribute_recursively(graph, node, 'lobe', value)\<close>\<close>

fun rec_traverse :: "nat \<Rightarrow> (node_id \<times> node_id list) list \<Rightarrow> int \<Rightarrow> node_id \<Rightarrow> graph \<Rightarrow> error + graph"
  and rec_traverse_all :: "nat \<Rightarrow> (node_id \<times> node_id list) list \<Rightarrow> int \<Rightarrow> node_id list \<Rightarrow> graph \<Rightarrow> error + graph" where
  "rec_traverse 0 successors v curr_node g = Inl RecursionError"
| "rec_traverse (Suc limit) successors v curr_node g =
     (case set_lobe g curr_node v of
        Inl e \<Rightarrow> Inl e
      | Inr g1 \<Rightarrow>
          (case map_of successors curr_node of
             Some ss \<Rightarrow> rec_traverse_all limit successors v ss g1
           | None \<Rightarrow> Inr g1))"
| "rec_traverse_all limit successors v [] g = Inr g"
| "rec_traverse_all limit successors v (succ # ss) g =
     (case rec_traverse limit successors v succ g of
        Inl e \<Rightarrow> Inl e
      | Inr g1 \<Rightarrow> rec_traverse_all limit successors v ss g1)"

definition set_attribute_recursively :: "nat \<Rightarrow> graph \<Rightarrow> node_id \<Rightarrow> int \<Rightarrow> error + graph" where
  "set_attribute_recursively limit g node v =
     (case bfs_successors g root of
        Inl e \<Rightarrow> Inl e
      | Inr ss \<Rightarrow> rec_traverse limit (py_dict ss) v node g)"

text \<open>
  \<^verbatim>\<open>exc = [lobe_type in successor_lobes for lobe_type in [4, 5]]\<close> and
  \<^verbatim>\<open>(n['level'] == 4 and not any(exc)) or (n['level'] == 5 and all(exc))\<close>
\<close>

definition level_4_or_5 :: "int \<Rightarrow> lobe_dict \<Rightarrow> bool" where
  "level_4_or_5 lvl node_lobes =
     (let exc = map (\<lambda>lobe_type. map_of node_lobes lobe_type \<noteq> None) [4, 5]
      in (lvl = 4 \<and> \<not> list_ex id exc) \<or> (lvl = 5 \<and> list_all id exc))"

text \<open>The lobes by falling number of occurrences; Python's sort is stable.\<close>

definition possible_new_lobes :: "lobe_dict \<Rightarrow> int list" where
  "possible_new_lobes node_lobes = map fst (sort_key (\<lambda>x. - snd x) node_lobes)"

text \<open>\<^verbatim>\<open>all(...)\<close> of a list of integers: none of them is zero.\<close>

definition difference_per_lobe_root_and_curr_node :: "lobe_dict \<Rightarrow> lobe_dict \<Rightarrow> int \<Rightarrow> int list" where
  "difference_per_lobe_root_and_curr_node root_successors node_lobes new_lobe =
     map (\<lambda>(l, c). c - (case map_of node_lobes l of None \<Rightarrow> 0 | Some v \<Rightarrow> v))
         (filter (\<lambda>(l, c). l \<noteq> new_lobe) root_successors)"

fun try_lobes :: "nat \<Rightarrow> lobe_dict \<Rightarrow> lobe_dict \<Rightarrow> node_id \<Rightarrow> int list \<Rightarrow> graph \<Rightarrow> error + graph" where
  "try_lobes limit root_successors node_lobes node [] g = Inr g"
| "try_lobes limit root_successors node_lobes node (new_lobe # rest) g =
     (if list_all (\<lambda>d. d \<noteq> 0) (difference_per_lobe_root_and_curr_node root_successors node_lobes new_lobe)
      then set_attribute_recursively limit g node new_lobe
      else try_lobes limit root_successors node_lobes node rest g)"

text \<open>The test that lets a node into the body of the loop.\<close>

definition considered :: "int \<Rightarrow> lobe_dict \<Rightarrow> bool" where
  "considered lvl node_lobes = (1 < length node_lobes \<and> level_4_or_5 lvl node_lobes)"

definition recolor_subtree_step :: "nat \<Rightarrow> lobe_dict \<Rightarrow> node_id \<times> lobe_dict \<Rightarrow> graph \<Rightarrow> error + graph" where
  "recolor_subtree_step limit root_successors item g =
     (case item of (node, node_lobes) \<Rightarrow>
        if 1 < length node_lobes then
          (case node_at g node of
             Inl e \<Rightarrow> Inl e
           | Inr n \<Rightarrow>
               if level_4_or_5 (level n) node_lobes
               then try_lobes limit root_successors node_lobes node (possible_new_lobes node_lobes) g
               else Inr g)
        else Inr g)"

fun recolor_subtree_loop :: "nat \<Rightarrow> lobe_dict \<Rightarrow> (node_id \<times> lobe_dict) list \<Rightarrow> graph \<Rightarrow> error + graph" where
  "recolor_subtree_loop limit root_successors [] g = Inr g"
| "recolor_subtree_loop limit root_successors (item # items) g =
     (case recolor_subtree_step limit root_successors item g of
        Inl e \<Rightarrow> Inl e
      | Inr g' \<Rightarrow> recolor_subtree_loop limit root_successors items g')"

definition recolor_entire_subtree_to_majority_at_level_4_or_5 :: "nat \<Rightarrow> graph \<Rightarrow> error + graph" where
  "recolor_entire_subtree_to_majority_at_level_4_or_5 limit g =
     (case get_successor_lobe_counts limit g of
        Inl e \<Rightarrow> Inl e
      | Inr al \<Rightarrow>
          (case map_of al root of
             None \<Rightarrow> Inl KeyError
           | Some root_successors \<Rightarrow> recolor_subtree_loop limit root_successors al g))"

section \<open>Example trees\<close>

definition plain_node :: "int \<Rightarrow> int \<Rightarrow> node_attr" where
  "plain_node l d = \<lparr>coord_x = 0, coord_y = 0, coord_z = 0, lobe = l, level = d, successor_count = None\<rparr>"

definition plain_edge :: "string \<Rightarrow> edge_attr" where
  "plain_edge s = \<lparr>weight = 10, group_sizes = s\<rparr>"

text \<open>The root in lobe 1 with one child in lobe 2.\<close>

definition tree_two :: graph where
  "tree_two =
     \<lparr>node_list = [(''0'', plain_node 1 0), (''1'', plain_node 2 1)],
      adj_list = [(''0'', [(''1'', plain_edge ''7'')]),
                  (''1'', [(''0'', plain_edge ''7'')])]\<rparr>"

text \<open>The chain \<^verbatim>\<open>0 - 1 - 2\<close> with lobes 1, 2, 1, and its lobes after the visits of nodes 0 and 1.\<close>

definition tree_chain :: graph where
  "tree_chain =
     \<lparr>node_list = [(''0'', plain_node 1 0), (''1'', plain_node 2 1), (''2'', plain_node 1 2)],
      adj_list = [(''0'', [(''1'', plain_edge ''7'')]),
                  (''1'', [(''0'', plain_edge ''7''), (''2'', plain_edge ''7'')]),
                  (''2'', [(''1'', plain_edge ''7'')])]\<rparr>"

definition tree_chain_mid :: graph where
  "tree_chain_mid = tree_chain\<lparr>node_list := [(''0'', plain_node 2 0), (''1'', plain_node 2 1), (''2'', plain_node 1 2)]\<rparr>"

definition tree_chain_end :: graph where
  "tree_chain_end = tree_chain\<lparr>node_list := [(''0'', plain_node 2 0), (''1'', plain_node 2 1), (''2'', plain_node 2 2)]\<rparr>"

text \<open>The root with one leaf whose edge carries six caliber samples.\<close>

definition tree_leaf6 :: graph where
  "tree_leaf6 =
     \<lparr>node_list = [(''0'', plain_node 0 0), (''A'', plain_node 0 1)],
      adj_list = [(''0'', [(''A'', plain_edge ''1 2 3 4 5 6'')]),
                  (''A'', [(''0'', plain_edge ''1 2 3 4 5 6'')])]\<rparr>"

definition root_only :: graph where
  "root_only = \<lparr>node_list = [(''0'', plain_node 0 0)], adj_list = [(''0'', [])]\<rparr>"

text \<open>The root-level occurrence counts of a tree: the entry of \<^verbatim>\<open>"0"\<close>.\<close>

definition root_counts :: "nat \<Rightarrow> graph \<Rightarrow> error + lobe_dict" where
  "root_counts limit g =
     (case get_successor_lobe_counts limit g of
        Inl e \<Rightarrow> Inl e
      | Inr al \<Rightarrow> (case map_of al root of None \<Rightarrow> Inl KeyError | Some rs \<Rightarrow> Inr rs))"

text \<open>
  The condition of the drastic subtree recolor as the specification words it:
  more than one distinct descendant lobe, and depth 4, or depth 5 with the
  descendant lobes drawn only from the pair 4, 5.
\<close>

definition spec_considered :: "int \<Rightarrow> lobe_dict \<Rightarrow> bool" where
  "spec_considered lvl node_lobes =
     (1 < length node_lobes \<and> (lvl = 4 \<or> (lvl = 5 \<and> fst ` set node_lobes \<subseteq> {4, 5})))"

section \<open>The recoloring passes on the examples\<close>

text \<open>
  C1 (subtree-majority pass).  In \<open>tree_two\<close> the root has lobe 1 and its whole
  descendant set carries the single lobe 2, so the pass should reassign the root
  to 2.  The dictionary stored for a node is the one its own lobe is added to
  afterwards, so the lobes reported for the root are 2 and 1, the test
  \<^verbatim>\<open>len(successor_lobes) == 1 and curr_lobe not in successor_lobes\<close> fails, and
  the pass returns the tree as it was.
\<close>

theorem subtree_majority_leaves_root:
  "get_successor_lobes 1000 tree_two = Inr [(''1'', [2]), (''0'', [2, 1])] \<and>
   recolor_if_successors_all_different_color 1000 tree_two = Inr tree_two"
  by code_simp

text \<open>
  C2 (root-level counters of the neighbor-majority pass).  On \<open>tree_chain\<close> the
  counters start as lobe 1: 2, lobe 2: 1.  The visit of node 0 reassigns it from
  lobe 1 to lobe 2; afterwards the tree has lobe 1 once and lobe 2 twice, but the
  counters are what they were: the decrement reads the lobe of the node after it
  has been overwritten, so it hits the new lobe and the increment undoes it.
\<close>

theorem neighbor_majority_counters_stale:
  "root_counts 1000 tree_chain = Inr [(1, 2), (2, 1)] \<and>
   recolor_adjacent_step ''0'' (tree_chain, [(1, 2), (2, 1)]) = Inr (tree_chain_mid, [(1, 2), (2, 1)]) \<and>
   root_counts 1000 tree_chain_mid = Inr [(1, 1), (2, 2)]"
  by code_simp

text \<open>
  C3 (when the neighbor-majority pass reassigns).  On \<open>tree_chain\<close>, after the
  visits of nodes 0 and 1 lobe 1 occurs once in the tree, at node 2.  Node 2 has
  the single non-neutral neighbour 1 in lobe 2, and its own lobe has one
  occurrence at the root level, so it should stay; the pass reassigns it, and
  lobe 1 is gone from the tree.
\<close>

theorem neighbor_majority_reassigns_last_occurrence:
  "recolor_adjacent_loop [''0'', ''1''] (tree_chain, [(1, 2), (2, 1)]) = Inr (tree_chain_mid, [(1, 2), (2, 1)]) \<and>
   root_counts 1000 tree_chain_mid = Inr [(1, 1), (2, 2)] \<and>
   recolor_adjacent_step ''2'' (tree_chain_mid, [(1, 2), (2, 1)]) = Inr (tree_chain_end, [(1, 2), (2, 1)]) \<and>
   recolor_if_all_adjacent_have_different_color 1000 tree_chain = Inr tree_chain_end \<and>
   root_counts 1000 tree_chain_end = Inr [(2, 3)]"
  by code_simp

section \<open>Minor-edge removal on the examples\<close>

text \<open>
  C4 (minor-edge removal at the threshold).  The leaf of \<open>tree_leaf6\<close> hangs on
  an edge with exactly six caliber samples.  The code counts the blanks of
  \<^verbatim>\<open>group_sizes\<close>, five here, finds \<^verbatim>\<open>5 < 6\<close> and removes the leaf.
\<close>

theorem minor_edge_removes_six_samples:
  "map_int (py_split ''1 2 3 4 5 6'') = Inr [1, 2, 3, 4, 5, 6] \<and>
   count_list ''1 2 3 4 5 6'' CHR '' '' = 5 \<and>
   remove_minor_edges tree_leaf6 = Inr root_only"
  by code_simp

section \<open>Which nodes the drastic subtree recolor considers\<close>

text \<open>
  C5, as stated, fails: a node at depth 4 whose descendant lobes are 3 and 4
  meets the condition of the specification and is not considered.
\<close>

theorem drastic_recolor_skips_level_4_with_lobe_4:
  "spec_considered 4 [(3, 2), (4, 1)] \<and> \<not> considered 4 [(3, 2), (4, 1)]"
  by code_simp

text \<open>
  C5, amended.  A node is considered only with more than one distinct descendant
  lobe and at level 4 or 5.  At level 4 it is considered exactly when, besides,
  neither lobe 4 nor lobe 5 is among its descendant lobes.  At level 5 it is not
  considered unless lobes 4 and 5 are both among them, and it is considered when
  they are the only ones.  A node that is not considered is
  left as it is by the step of the pass, and a considered one goes through the
  candidates.
\<close>

theorem drastic_recolor_considered:
  assumes "distinct (map fst node_lobes)"
  shows "(considered lvl node_lobes \<longrightarrow> 1 < length node_lobes \<and> (lvl = 4 \<or> lvl = 5)) \<and>
         (lvl = 4 \<longrightarrow>
            considered lvl node_lobes =
              (1 < length node_lobes \<and> 4 \<notin> fst ` set node_lobes \<and> 5 \<notin> fst ` set node_lobes)) \<and>
         (lvl = 5 \<and> \<not> (4 \<in> fst ` set node_lobes \<and> 5 \<in> fst ` set node_lobes) \<longrightarrow>
            \<not> considered lvl node_lobes) \<and>
         (lvl = 5 \<and> fst ` set node_lobes \<subseteq> {4, 5} \<longrightarrow>
            considered lvl node_lobes = (1 < length node_lobes)) \<and>
         (node_at g node = Inr n \<and> lvl = level n \<longrightarrow>
            recolor_subtree_step limit rs (node, node_lobes) g =
              (if considered lvl node_lobes
               then try_lobes limit rs node_lobes node (possible_new_lobes node_lobes) g
               else Inr g))"
proof -
  let ?K = "fst ` set node_lobes"
  have guard: "level_4_or_5 lvl node_lobes = ((lvl = 4 \<and> 4 \<notin> ?K \<and> 5 \<notin> ?K) \<or> (lvl = 5 \<and> 4 \<in> ?K \<and> 5 \<in> ?K))"
    for lvl
    by (simp add: level_4_or_5_def map_of_eq_None_iff)
  have both: "4 \<in> ?K \<and> 5 \<in> ?K" if len: "1 < length node_lobes" and sub: "?K \<subseteq> {4, 5}"
  proof (rule ccontr)
    assume "\<not> ?thesis"
    with sub have "?K \<subseteq> {4} \<or> ?K \<subseteq> {5}" by auto
    then have "card ?K \<le> 1"
      using card_mono [of "{4::int}" ?K] card_mono [of "{5::int}" ?K] by auto
    moreover have "card ?K = length node_lobes"
      using assms distinct_card [of "map fst node_lobes"] by simp
    ultimately show False using len by simp
  qed
  have step: "recolor_subtree_step limit rs (node, node_lobes) g =
              (if considered lvl node_lobes
               then try_lobes limit rs node_lobes node (possible_new_lobes node_lobes) g
               else Inr g)" if "node_at g node = Inr n" and "lvl = level n"
    using that by (simp add: recolor_subtree_step_def considered_def)
  have c1: "considered lvl node_lobes \<longrightarrow> 1 < length node_lobes \<and> (lvl = 4 \<or> lvl = 5)"
    by (auto simp: considered_def guard)
  have c2: "lvl = 4 \<longrightarrow> considered lvl node_lobes = (1 < length node_lobes \<and> 4 \<notin> ?K \<and> 5 \<notin> ?K)"
    by (auto simp: considered_def guard)
  have c3: "lvl = 5 \<and> \<not> (4 \<in> ?K \<and> 5 \<in> ?K) \<longrightarrow> \<not> considered lvl node_lobes"
    by (auto simp: considered_def guard)
  have c4: "lvl = 5 \<and> ?K \<subseteq> {4, 5} \<longrightarrow> considered lvl node_lobes = (1 < length node_lobes)"
    using both by (auto simp: considered_def guard)
  have c5: "node_at g node = Inr n \<and> lvl = level n \<longrightarrow>
            recolor_subtree_step limit rs (node, node_lobes) g =
              (if considered lvl node_lobes
               then try_lobes limit rs node_lobes node (possible_new_lobes node_lobes) g
               else Inr g)"
    using step by blast
  from c1 c2 c3 c4 c5 show ?thesis by (intro conjI)
qed

theorem drastic_recolor_considered_witness:
  "considered 4 [(1, 2), (2, 1)] \<and> \<not> considered 4 [(3, 2), (4, 1)] \<and>
   considered 5 [(4, 2), (5, 1)] \<and> \<not> considered 5 [(1, 2), (2, 1)] \<and>
   recolor_subtree_step 1000 [(1, 1)] (''0'', [(3, 2), (4, 1)]) (root_only\<lparr>node_list := [(''0'', plain_node 0 4)]\<rparr>)
     = Inr (root_only\<lparr>node_list := [(''0'', plain_node 0 4)]\<rparr>)"
proof -
  have d1: "distinct (map fst [(1::int, 2::int), (2, 1)])" by simp
  have d2: "distinct (map fst [(3::int, 2::int), (4, 1)])" by simp
  have d3: "distinct (map fst [(4::int, 2::int), (5, 1)])" by simp
  have n: "node_at (root_only\<lparr>node_list := [(''0'', plain_node 0 4)]\<rparr>) ''0'' = Inr (plain_node 0 4)"
    by (simp add: node_at_def root_only_def)
  have l: "level (plain_node 0 4) = 4" by (simp add: plain_node_def)
  show ?thesis
    using drastic_recolor_considered [OF d1, of 4]
      drastic_recolor_considered [OF d2, of 4 "root_only\<lparr>node_list := [(''0'', plain_node 0 4)]\<rparr>" "''0''" "plain_node 0 4" 1000 "[(1, 1)]"]
      drastic_recolor_considered [OF d3, of 5]
      drastic_recolor_considered [OF d1, of 5] n l
    by simp
qed

section \<open>Straightening a chain\<close>

text \<open>
  The chain \<^verbatim>\<open>0 - A - B - C\<close> with any node and edge attributes, and the tree
  \<^verbatim>\<open>0 - C\<close>.
\<close>

definition chain4 :: "node_attr \<Rightarrow> node_attr \<Rightarrow> node_attr \<Rightarrow> node_attr \<Rightarrow>
    edge_attr \<Rightarrow> edge_attr \<Rightarrow> edge_attr \<Rightarrow> graph" where
  "chain4 r a b c e1 e2 e3 =
     \<lparr>node_list = [(''0'', r), (''A'', a), (''B'', b), (''C'', c)],
      adj_list = [(''0'', [(''A'', e1)]),
                  (''A'', [(''0'', e1), (''B'', e2)]),
                  (''B'', [(''A'', e2), (''C'', e3)]),
                  (''C'', [(''B'', e3)])]\<rparr>"

definition chain2 :: "node_attr \<Rightarrow> node_attr \<Rightarrow> edge_attr \<Rightarrow> graph" where
  "chain2 r c e =
     \<lparr>node_list = [(''0'', r), (''C'', c)],
      adj_list = [(''0'', [(''C'', e)]), (''C'', [(''0'', e)])]\<rparr>"

text \<open>The Euclidean distance between the coordinates of two nodes.\<close>

definition euclid :: "node_attr \<Rightarrow> node_attr \<Rightarrow> real" where
  "euclid p q =
     sqrt ((coord_x p - coord_x q)\<^sup>2 + (coord_y p - coord_y q)\<^sup>2 + (coord_z p - coord_z q)\<^sup>2)"

text \<open>\<^verbatim>\<open>straighten_edges\<close> applied a number of times, stopping at an exception.\<close>

fun straighten_times :: "nat \<Rightarrow> graph \<Rightarrow> error + graph" where
  "straighten_times 0 g = Inr g"
| "straighten_times (Suc k) g =
     (case straighten_edges g of Inl e \<Rightarrow> Inl e | Inr g' \<Rightarrow> straighten_times k g')"

text \<open>\<^verbatim>\<open>list(map(int, s.split()))\<close>: the caliber samples of an edge.\<close>

definition samples :: "string \<Rightarrow> error + int list" where
  "samples s = map_int (py_split s)"

lemmas graph_defs = root_def node_ids_def node_at_def edge_at_def neighbors_def
  remove_node_def bfs_edges_def bfs_successors_def bfs_predecessors_def py_dict_def number_of_nodes_def

lemmas straighten_defs = straighten_edges_def only_single_successor_def merge_edges_def distance_def
  combine_group_sizes_def add_edge_def adj_put_def

lemma straighten_chain4:
  "straighten_edges (chain4 r a b c e1 e2 e3) =
     Inr \<lparr>node_list = [(''0'', r), (''B'', b), (''C'', c)],
          adj_list =
            [(''0'', [(''B'', \<lparr>weight = euclid r b, group_sizes = group_sizes e1 @ '' '' @ group_sizes e2\<rparr>)]),
             (''B'', [(''C'', e3),
                      (''0'', \<lparr>weight = euclid r b, group_sizes = group_sizes e1 @ '' '' @ group_sizes e2\<rparr>)]),
             (''C'', [(''B'', e3)])]\<rparr>"
  by (simp add: chain4_def euclid_def straighten_defs graph_defs)

lemma straighten_chain3:
  "straighten_edges
     \<lparr>node_list = [(''0'', r), (''B'', b), (''C'', c)],
      adj_list = [(''0'', [(''B'', e12)]), (''B'', [(''C'', e3), (''0'', e12)]), (''C'', [(''B'', e3)])]\<rparr> =
   Inr (chain2 r c \<lparr>weight = euclid r c, group_sizes = group_sizes e12 @ '' '' @ group_sizes e3\<rparr>)"
  by (simp add: chain2_def euclid_def straighten_defs graph_defs)

lemma straighten_chain2: "straighten_edges (chain2 r c e) = Inr (chain2 r c e)"
  by (simp add: chain2_def straighten_defs graph_defs)

lemma straighten_times_chain2: "straighten_times k (chain2 r c e) = Inr (chain2 r c e)"
  by (induction k) (simp_all add: straighten_chain2)

lemma split_aux_space:
  "is_space sp \<Longrightarrow> split_aux tok (a @ sp # b) = split_aux tok a @ split_aux [] b"
  by (induction a arbitrary: tok) auto

lemma py_split_join: "py_split (a @ '' '' @ b) = py_split a @ py_split b"
  using split_aux_space [of "CHR '' ''" "[]" a b] by (simp add: py_split_def is_space_def)

lemma map_int_append:
  "map_int xs = Inr ns \<Longrightarrow> map_int ys = Inr ms \<Longrightarrow> map_int (xs @ ys) = Inr (ns @ ms)"
  by (induction xs arbitrary: ns) (auto split: sum.splits)

lemma samples_join:
  "samples a = Inr ns \<Longrightarrow> samples b = Inr ms \<Longrightarrow> samples (a @ '' '' @ b) = Inr (ns @ ms)"
  unfolding samples_def py_split_join by (rule map_int_append)

text \<open>
  C8.  Two applications of straightening turn the chain \<^verbatim>\<open>0 - A - B - C\<close> into
  the tree \<^verbatim>\<open>0 - C\<close>, and every further application leaves that tree as it is.
  Nodes A and B are gone; the weight of the one edge is the Euclidean distance
  between the root and C, which is what \<^verbatim>\<open>distance\<close> returns for them in the
  chain; its \<^verbatim>\<open>group_sizes\<close> is the text of the three edges joined in order, and
  its caliber samples are those of the three edges in order.
\<close>

theorem straighten_chain_to_fixpoint:
  assumes "samples (group_sizes e1) = Inr s1"
    and "samples (group_sizes e2) = Inr s2"
    and "samples (group_sizes e3) = Inr s3"
    and "e = \<lparr>weight = euclid r c,
               group_sizes = (group_sizes e1 @ '' '' @ group_sizes e2) @ '' '' @ group_sizes e3\<rparr>"
  shows "straighten_times (k + 2) (chain4 r a b c e1 e2 e3) = Inr (chain2 r c e) \<and>
         straighten_edges (chain2 r c e) = Inr (chain2 r c e) \<and>
         node_ids (chain2 r c e) = [''0'', ''C''] \<and>
         edge_at (chain2 r c e) ''0'' ''C'' = Inr e \<and>
         distance (chain4 r a b c e1 e2 e3) ''0'' ''C'' = Inr (weight e) \<and>
         samples (group_sizes e) = Inr (s1 @ s2 @ s3)"
proof -
  have "straighten_times (k + 2) (chain4 r a b c e1 e2 e3) = Inr (chain2 r c e)"
    using assms(4) by (simp add: straighten_chain4 straighten_chain3 straighten_times_chain2)
  moreover have "samples (group_sizes e) = Inr (s1 @ s2 @ s3)"
    using samples_join [OF samples_join [OF assms(1) assms(2)] assms(3)] assms(4) by simp
  moreover have "distance (chain4 r a b c e1 e2 e3) ''0'' ''C'' = Inr (weight e)"
    using assms(4) by (simp add: chain4_def distance_def node_at_def euclid_def)
  moreover have "node_ids (chain2 r c e) = [''0'', ''C'']"
    by (simp add: chain2_def node_ids_def)
  moreover have "edge_at (chain2 r c e) ''0'' ''C'' = Inr e"
    by (simp add: chain2_def edge_at_def)
  ultimately show ?thesis by (simp add: straighten_chain2)
qed

theorem straighten_chain_to_fixpoint_witness:
  "straighten_times 2
     (chain4 (plain_node 0 0) (plain_node 0 1) (plain_node 0 2) (plain_node 0 3)
        (plain_edge ''5 6'') (plain_edge ''7'') (plain_edge ''8 9'')) =
   Inr (chain2 (plain_node 0 0) (plain_node 0 3)
          \<lparr>weight = euclid (plain_node 0 0) (plain_node 0 3), group_sizes = ''5 6 7 8 9''\<rparr>) \<and>
   samples ''5 6 7 8 9'' = Inr [5, 6, 7, 8, 9]"
proof -
  have h1: "samples (group_sizes (plain_edge ''5 6'')) = Inr [5, 6]" by code_simp
  have h2: "samples (group_sizes (plain_edge ''7'')) = Inr [7]" by code_simp
  have h3: "samples (group_sizes (plain_edge ''8 9'')) = Inr [8, 9]" by code_simp
  show ?thesis
    using straighten_chain_to_fixpoint [OF h1 h2 h3 refl, where r = "plain_node 0 0"
        and c = "plain_node 0 3" and k = 0 and a = "plain_node 0 1" and b = "plain_node 0 2"]
    by (simp add: plain_edge_def numeral_2_eq_2)
qed

section \<open>Facts about the breadth-first traversal\<close>

text \<open>The children found by a traversal, in the order they were found.\<close>

definition targets :: "(node_id \<times> node_id list) list \<Rightarrow> node_id list" where
  "targets bs = concat (map snd bs)"

lemma targets_simps [simp]: "targets [] = []" "targets ((p, cs) # bs) = cs @ targets bs"
  "targets (bs1 @ bs2) = targets bs1 @ targets bs2"
  by (simp_all add: targets_def)

lemma bfs_keys: "map fst (bfs_blocks g q vis) = q @ targets (bfs_blocks g q vis)"
  by (induction g q vis rule: bfs_blocks.induct) (simp_all add: Let_def)

lemma bfs_targets:
  "distinct (targets (bfs_blocks g q vis)) \<and> set (targets (bfs_blocks g q vis)) \<inter> set vis = {}"
proof (induction g q vis rule: bfs_blocks.induct)
  case (1 g vis)
  show ?case by simp
next
  case (2 g p queue vis)
  define cs where "cs = unseen vis (neighbors g p)"
  have ih: "distinct (targets (bfs_blocks g (queue @ cs) (cs @ vis)))"
    "set (targets (bfs_blocks g (queue @ cs) (cs @ vis))) \<inter> set (cs @ vis) = {}"
    using 2 [OF cs_def] by simp_all
  have "distinct cs" "set cs \<inter> set vis = {}"
    using unseen_distinct [of vis "neighbors g p"] unseen_subset [of vis "neighbors g p"]
    by (auto simp: cs_def)
  with ih show ?case by (auto simp: Let_def cs_def [symmetric])
qed

lemma bfs_key_origin:
  "bfs_blocks g q vis = bs1 @ (p, cs) # bs2 \<Longrightarrow> p \<in> set q \<union> set (targets bs1)"
proof (induction g q vis arbitrary: bs1 rule: bfs_blocks.induct)
  case (1 g vis)
  then show ?case by simp
next
  case (2 g p0 queue vis)
  define cs0 where "cs0 = unseen vis (neighbors g p0)"
  have eq: "(p0, cs0) # bfs_blocks g (queue @ cs0) (cs0 @ vis) = bs1 @ (p, cs) # bs2"
    using 2(2) by (simp add: Let_def cs0_def)
  show ?case
  proof (cases bs1)
    case Nil
    with eq show ?thesis by simp
  next
    case (Cons b bs1')
    with eq have b: "b = (p0, cs0)" and r: "bfs_blocks g (queue @ cs0) (cs0 @ vis) = bs1' @ (p, cs) # bs2"
      by simp_all
    from 2(1) [OF cs0_def r] show ?thesis using Cons b by auto
  qed
qed

lemma bfs_children: "(p, cs) \<in> set (bfs_blocks g q vis) \<Longrightarrow> set cs \<subseteq> set (neighbors g p)"
proof (induction g q vis rule: bfs_blocks.induct)
  case (1 g vis)
  then show ?case by simp
next
  case (2 g p0 queue vis)
  then show ?case using unseen_subset [of vis "neighbors g p0"] by (auto simp: Let_def)
qed

declare bfs_blocks.simps [simp del]

lemma update_fresh: "k \<notin> fst ` set d \<Longrightarrow> AList.update k v d = d @ [(k, v)]"
  by (induction d) auto

lemma py_dict_aux:
  "distinct (map fst (d @ kvs)) \<Longrightarrow> foldl (\<lambda>d (k, v). AList.update k v d) d kvs = d @ kvs"
proof (induction kvs arbitrary: d)
  case Nil
  show ?case by simp
next
  case (Cons kv kvs)
  obtain k v where kv: "kv = (k, v)" by (cases kv)
  have "k \<notin> fst ` set d" using Cons.prems kv by auto
  then have u: "AList.update k v d = d @ [(k, v)]" by (rule update_fresh)
  have "distinct (map fst ((d @ [(k, v)]) @ kvs))" using Cons.prems kv by simp
  from Cons.IH [OF this] show ?case using kv u by simp
qed

lemma py_dict_distinct: "distinct (map fst kvs) \<Longrightarrow> py_dict kvs = kvs"
  using py_dict_aux [of "[]" kvs] by (simp add: py_dict_def)

lemma bfs_blocks_root:
  "map fst (bfs_blocks g [s] [s]) = s # targets (bfs_blocks g [s] [s]) \<and>
   distinct (map fst (bfs_blocks g [s] [s]))"
  using bfs_keys [of g "[s]" "[s]"] bfs_targets [of g "[s]" "[s]"] by auto

lemma bfs_successors_keys:
  assumes "bfs_successors g s = Inr ss"
  shows "distinct (map fst ss)" and "s \<in> fst ` set ss"
    and "\<And>n cs. (n, cs) \<in> set ss \<Longrightarrow> n \<noteq> s \<Longrightarrow> cs \<noteq> []"
proof -
  let ?bs = "bfs_blocks g [s] [s]"
  let ?fs = "filter (\<lambda>(p, cs). cs \<noteq> []) ?bs"
  have ss: "ss = (if ?fs = [] then [(s, [])] else ?fs)"
    using assms by (simp add: bfs_successors_def Let_def split: if_splits)
  have d: "distinct (map fst ?fs)"
    using bfs_blocks_root [of g s] by (auto intro: distinct_map_filter)
  show "distinct (map fst ss)" using d ss by simp
  define cs0 where "cs0 = unseen [s] (neighbors g s)"
  have b: "?bs = (s, cs0) # bfs_blocks g cs0 (cs0 @ [s])"
    by (simp add: bfs_blocks.simps Let_def cs0_def)
  show "s \<in> fst ` set ss"
  proof (cases "cs0 = []")
    case False
    then show ?thesis using b ss by (auto simp: image_iff)
  next
    case True
    then have "?bs = [(s, [])]" using b by (simp add: bfs_blocks.simps)
    then show ?thesis using ss by simp
  qed
  show "\<And>n cs. (n, cs) \<in> set ss \<Longrightarrow> n \<noteq> s \<Longrightarrow> cs \<noteq> []"
    using ss by (auto split: if_splits)
qed

lemma remove_node_ids: "remove_node g n = Inr g' \<Longrightarrow> node_ids g' = filter (\<lambda>m. m \<noteq> n) (node_ids g)"
  by (auto simp: remove_node_def node_ids_def delete_keys removeAll_filter_not_eq split: if_splits
      intro!: filter_cong)

lemma remove_nodes_ids:
  "remove_nodes g rm = Inr g' \<Longrightarrow> node_ids g' = filter (\<lambda>m. m \<notin> set rm) (node_ids g)"
proof (induction rm arbitrary: g)
  case Nil
  then show ?case by simp
next
  case (Cons n rm)
  then obtain g1 where g1: "remove_node g n = Inr g1" and r: "remove_nodes g1 rm = Inr g'"
    by (auto split: sum.splits)
  show ?case using Cons.IH [OF r] remove_node_ids [OF g1] by (auto intro: filter_cong)
qed

section \<open>Childless pruning\<close>

text \<open>The children a dictionary of successors holds for a node.\<close>

definition children_in :: "(node_id \<times> node_id list) list \<Rightarrow> node_id \<Rightarrow> node_id list" where
  "children_in successors n = (case map_of successors n of None \<Rightarrow> [] | Some cs \<Rightarrow> cs)"

text \<open>The nodes at a depth below the root: the root at depth 0, the children of depth \<open>k\<close> at depth \<open>k + 1\<close>.\<close>

fun at_depth :: "(node_id \<times> node_id list) list \<Rightarrow> nat \<Rightarrow> node_id set" where
  "at_depth successors 0 = {root}"
| "at_depth successors (Suc k) = (\<Union>n \<in> at_depth successors k. set (children_in successors n))"

text \<open>
  A tree with a leaf at depth 1 and a leaf at depth 4: \<^verbatim>\<open>0 - 1\<close> and
  \<^verbatim>\<open>0 - 2 - 3 - 4 - 5\<close>; and the same tree without node 1.
\<close>

definition tree_deep :: graph where
  "tree_deep =
     \<lparr>node_list = [(''0'', plain_node 0 0), (''1'', plain_node 0 1), (''2'', plain_node 0 1),
                   (''3'', plain_node 0 2), (''4'', plain_node 0 3), (''5'', plain_node 0 4)],
      adj_list = [(''0'', [(''1'', plain_edge ''7''), (''2'', plain_edge ''7'')]),
                  (''1'', [(''0'', plain_edge ''7'')]),
                  (''2'', [(''0'', plain_edge ''7''), (''3'', plain_edge ''7'')]),
                  (''3'', [(''2'', plain_edge ''7''), (''4'', plain_edge ''7'')]),
                  (''4'', [(''3'', plain_edge ''7''), (''5'', plain_edge ''7'')]),
                  (''5'', [(''4'', plain_edge ''7'')])]\<rparr>"

definition tree_deep_pruned :: graph where
  "tree_deep_pruned =
     \<lparr>node_list = [(''0'', plain_node 0 0), (''2'', plain_node 0 1),
                   (''3'', plain_node 0 2), (''4'', plain_node 0 3), (''5'', plain_node 0 4)],
      adj_list = [(''0'', [(''2'', plain_edge ''7'')]),
                  (''2'', [(''0'', plain_edge ''7''), (''3'', plain_edge ''7'')]),
                  (''3'', [(''2'', plain_edge ''7''), (''4'', plain_edge ''7'')]),
                  (''4'', [(''3'', plain_edge ''7''), (''5'', plain_edge ''7'')]),
                  (''5'', [(''4'', plain_edge ''7'')])]\<rparr>"

lemma check_round_set:
  "set (check_round d xs) = set xs \<union> (\<Union>n \<in> set xs. set (children_in d n))"
  by (auto simp: check_round_def children_in_def Let_def split: option.splits)

lemma nodes_to_check_depth:
  "set (nodes_to_check d) = at_depth d 0 \<union> at_depth d 1 \<union> at_depth d 2 \<union> at_depth d 3"
proof -
  have 1: "at_depth d 1 = (\<Union>n \<in> at_depth d 0. set (children_in d n))" by simp
  have 2: "at_depth d 2 = (\<Union>n \<in> at_depth d 1. set (children_in d n))"
    using at_depth.simps(2) [of d 1] by (simp add: numeral_2_eq_2)
  have 3: "at_depth d 3 = (\<Union>n \<in> at_depth d 2. set (children_in d n))"
    using at_depth.simps(2) [of d 2] by (simp add: numeral_3_eq_3 numeral_2_eq_2)
  have r1: "set (check_round d [root]) = at_depth d 0 \<union> at_depth d 1"
    unfolding check_round_set 1 by simp
  have r2: "set (check_round d (check_round d [root])) = at_depth d 0 \<union> at_depth d 1 \<union> at_depth d 2"
    unfolding check_round_set [of d "check_round d [root]"] r1 1 2 by auto
  show ?thesis
    unfolding nodes_to_check_def check_round_set [of d "check_round d (check_round d [root])"] r2 1 2 3
    by auto
qed

lemma depth_le_3: "(\<exists>k\<le>3. n \<in> at_depth d k) = (n \<in> at_depth d 0 \<union> at_depth d 1 \<union> at_depth d 2 \<union> at_depth d 3)"
proof
  assume "\<exists>k\<le>3. n \<in> at_depth d k"
  then obtain k where k: "k \<le> 3" "n \<in> at_depth d k" by blast
  then have "k = 0 \<or> k = 1 \<or> k = 2 \<or> k = 3" by arith
  with k(2) show "n \<in> at_depth d 0 \<union> at_depth d 1 \<union> at_depth d 2 \<union> at_depth d 3" by auto
next
  assume "n \<in> at_depth d 0 \<union> at_depth d 1 \<union> at_depth d 2 \<union> at_depth d 3"
  then consider "n \<in> at_depth d 0" | "n \<in> at_depth d 1" | "n \<in> at_depth d 2" | "n \<in> at_depth d 3" by blast
  then show "\<exists>k\<le>3. n \<in> at_depth d k"
  proof cases
    case 1 then show ?thesis by (intro exI [of _ 0]) simp
  next
    case 2 then show ?thesis by (intro exI [of _ 1]) simp
  next
    case 3 then show ?thesis by (intro exI [of _ 2]) simp
  next
    case 4 then show ?thesis by (intro exI [of _ 3]) simp
  qed
qed

text \<open>
  C10, as stated, fails for the tree that is only the root: the traversal reports
  the root with an empty list of children, so the root is a key of
  \<^verbatim>\<open>successors\<close>, nothing is removed and the graph keeps its one node.
\<close>

theorem childless_pruning_root_only:
  "bfs_successors root_only root = Inr [(''0'', [])] \<and>
   childless_nodes root_only = Inr [] \<and>
   remove_children_without_children root_only = Inr root_only \<and>
   node_ids root_only = [''0'']"
  by code_simp

text \<open>
  C10, amended.  The dictionary of successors is the traversal's list.  The nodes
  examined are exactly those at depth at most 3 below the root; the nodes removed
  are exactly the examined nodes other than the root that have no child; the root
  is never removed.
\<close>

theorem childless_pruning_keeps_root:
  assumes "bfs_successors g root = Inr ss"
    and "remove_children_without_children g = Inr g'"
  shows "py_dict ss = ss \<and>
         set (nodes_to_check ss) = {n. \<exists>k\<le>3. n \<in> at_depth ss k} \<and>
         set (node_ids g') =
           set (node_ids g) - {n. (\<exists>k\<le>3. n \<in> at_depth ss k) \<and> n \<noteq> root \<and> children_in ss n = []} \<and>
         (root \<in> set (node_ids g) \<longrightarrow> root \<in> set (node_ids g'))"
proof -
  have d: "py_dict ss = ss" using bfs_successors_keys(1) [OF assms(1)] by (rule py_dict_distinct)
  have key: "(map_of ss n = None) = (n \<noteq> root \<and> children_in ss n = [])" for n
  proof (cases "map_of ss n")
    case None
    moreover have "n \<noteq> root"
      using None bfs_successors_keys(2) [OF assms(1)] by (auto simp: map_of_eq_None_iff)
    ultimately show ?thesis by (simp add: children_in_def)
  next
    case (Some cs)
    then have "(n, cs) \<in> set ss" by (rule map_of_SomeD)
    then have "n \<noteq> root \<Longrightarrow> cs \<noteq> []" using bfs_successors_keys(3) [OF assms(1)] by blast
    then show ?thesis using Some by (auto simp: children_in_def)
  qed
  have ex: "set (nodes_to_check ss) = {n. \<exists>k\<le>3. n \<in> at_depth ss k}"
    using nodes_to_check_depth [of ss] depth_le_3 [of _ ss] by blast
  have rm: "childless_nodes g = Inr (filter (\<lambda>adj. map_of ss adj = None) (nodes_to_check ss))"
    using assms(1) d by (simp add: childless_nodes_def)
  then have "remove_nodes g (filter (\<lambda>adj. map_of ss adj = None) (nodes_to_check ss)) = Inr g'"
    using assms(2) by (simp add: remove_children_without_children_def)
  from remove_nodes_ids [OF this]
  have ids: "set (node_ids g') =
      set (node_ids g) - {n. (\<exists>k\<le>3. n \<in> at_depth ss k) \<and> n \<noteq> root \<and> children_in ss n = []}"
    using ex key by auto
  then show ?thesis using d ex by auto
qed


theorem childless_pruning_keeps_root_witness:
  "bfs_successors tree_deep root =
     Inr [(''0'', [''1'', ''2'']), (''2'', [''3'']), (''3'', [''4'']), (''4'', [''5''])] \<and>
   remove_children_without_children tree_deep = Inr tree_deep_pruned \<and>
   node_ids tree_deep_pruned = [''0'', ''2'', ''3'', ''4'', ''5''] \<and>
   set (node_ids tree_deep_pruned) =
     set (node_ids tree_deep) -
       {n. (\<exists>k\<le>3. n \<in> at_depth [(''0'', [''1'', ''2'']), (''2'', [''3'']), (''3'', [''4'']), (''4'', [''5''])] k)
           \<and> n \<noteq> root
           \<and> children_in [(''0'', [''1'', ''2'']), (''2'', [''3'']), (''3'', [''4'']), (''4'', [''5''])] n = []} \<and>
   root \<in> set (node_ids tree_deep_pruned)"
proof -
  have h1: "bfs_successors tree_deep root =
      Inr [(''0'', [''1'', ''2'']), (''2'', [''3'']), (''3'', [''4'']), (''4'', [''5''])]"
    by code_simp
  have h2: "remove_children_without_children tree_deep = Inr tree_deep_pruned" by code_simp
  have h3: "node_ids tree_deep_pruned = [''0'', ''2'', ''3'', ''4'', ''5'']" by code_simp
  have h4: "root \<in> set (node_ids tree_deep)" by code_simp
  show ?thesis using childless_pruning_keeps_root [OF h1 h2] h1 h2 h3 h4 by blast
qed

section \<open>The node-removal loop terminates\<close>

text \<open>The graph after a number of whole cycles, stopping at an exception.\<close>

fun cycles :: "nat \<Rightarrow> graph \<Rightarrow> error + graph" where
  "cycles 0 g = Inr g"
| "cycles (Suc k) g = (case removal_cycle g of Inl e \<Rightarrow> Inl e | Inr g' \<Rightarrow> cycles k g')"

lemma remove_nodes_count: "remove_nodes g rm = Inr g' \<Longrightarrow> number_of_nodes g' \<le> number_of_nodes g"
proof -
  assume "remove_nodes g rm = Inr g'"
  from remove_nodes_ids [OF this] have "length (node_ids g') \<le> length (node_ids g)" by simp
  then show ?thesis by (simp add: number_of_nodes_def node_ids_def)
qed

lemma merge_edges_nodes: "merge_edges g p n s = Inr g' \<Longrightarrow> node_list g' = node_list g"
  by (auto simp: merge_edges_def add_edge_def split: sum.splits)

lemma merge_all_nodes: "merge_all g em = Inr g' \<Longrightarrow> node_list g' = node_list g"
proof (induction em arbitrary: g)
  case Nil
  then show ?case by simp
next
  case (Cons m em)
  obtain p n s where m: "m = (p, n, s)" by (cases m)
  from Cons.prems m obtain g1 where g1: "merge_edges g p n s = Inr g1" and r: "merge_all g1 em = Inr g'"
    by (auto split: sum.splits)
  show ?case using Cons.IH [OF r] merge_edges_nodes [OF g1] by simp
qed

lemma straighten_loop_nodes:
  "straighten_loop preds items g rm cant = Inr (g', rm') \<Longrightarrow> node_list g' = node_list g"
proof (induction items arbitrary: g rm cant)
  case Nil
  then show ?case by simp
next
  case (Cons item items)
  obtain node successor where i: "item = (node, successor)" by (cases item)
  show ?case
  proof (cases "node \<in> cant")
    case True
    with Cons i show ?thesis by simp
  next
    case False
    with Cons.prems i obtain predecessor g1 where
      g1: "merge_edges g predecessor node successor = Inr g1" and
      r: "straighten_loop preds items g1 (rm @ [node]) (insert successor cant) = Inr (g', rm')"
      by (auto split: option.splits sum.splits)
    show ?thesis using Cons.IH [OF r] merge_edges_nodes [OF g1] by simp
  qed
qed

lemma remove_minor_edges_count:
  "remove_minor_edges g = Inr g' \<Longrightarrow> number_of_nodes g' \<le> number_of_nodes g"
  by (auto simp: remove_minor_edges_def split: sum.splits dest: remove_nodes_count)

lemma straighten_edges_count:
  assumes "straighten_edges g = Inr g'"
  shows "number_of_nodes g' \<le> number_of_nodes g"
proof -
  from assms obtain ps ss g1 rm where
    l: "straighten_loop (py_dict ps) (only_single_successor ss) g [] {root} = Inr (g1, rm)"
    and r: "remove_nodes g1 rm = Inr g'"
    by (auto simp: straighten_edges_def split: sum.splits)
  show ?thesis using straighten_loop_nodes [OF l] remove_nodes_count [OF r]
    by (simp add: number_of_nodes_def)
qed

lemma merge_close_nodes_count:
  assumes "merge_close_nodes g = Inr g'"
  shows "number_of_nodes g' \<le> number_of_nodes g"
proof -
  from assms obtain rm em g1 where
    m: "merge_all g em = Inr g1" and r: "remove_nodes g1 rm = Inr g'"
    by (auto simp: merge_close_nodes_def split: sum.splits)
  show ?thesis using merge_all_nodes [OF m] remove_nodes_count [OF r]
    by (simp add: number_of_nodes_def)
qed

lemma remove_children_without_children_count:
  "remove_children_without_children g = Inr g' \<Longrightarrow> number_of_nodes g' \<le> number_of_nodes g"
  by (auto simp: remove_children_without_children_def split: sum.splits dest: remove_nodes_count)

lemma removal_cycle_steps:
  "(removal_cycle g = Inr g4) =
   (\<exists>g1 g2 g3. remove_minor_edges g = Inr g1 \<and> straighten_edges g1 = Inr g2 \<and>
      merge_close_nodes g2 = Inr g3 \<and> remove_children_without_children g3 = Inr g4)"
  by (auto simp: removal_cycle_def split: sum.splits)

lemma removal_cycle_count:
  assumes "removal_cycle g = Inr g'"
  shows "number_of_nodes g' \<le> number_of_nodes g"
proof -
  from assms obtain g1 g2 g3 where
    "remove_minor_edges g = Inr g1" "straighten_edges g1 = Inr g2"
    "merge_close_nodes g2 = Inr g3" "remove_children_without_children g3 = Inr g'"
    unfolding removal_cycle_steps by blast
  then show ?thesis
    using remove_minor_edges_count straighten_edges_count merge_close_nodes_count
      remove_children_without_children_count by (meson order_trans)
qed

lemma removal_loop_returns:
  "number_of_nodes g < fuel \<Longrightarrow> \<exists>r. removal_loop fuel iteration g = Some r"
proof (induction fuel arbitrary: g iteration)
  case 0
  then show ?case by simp
next
  case (Suc fuel)
  show ?case
  proof (cases "removal_cycle g")
    case (Inl e)
    then show ?thesis by simp
  next
    case (Inr g')
    show ?thesis
    proof (cases "number_of_nodes g = number_of_nodes g'")
      case True
      with Inr show ?thesis by simp
    next
      case False
      with removal_cycle_count [OF Inr] Suc.prems have "number_of_nodes g' < fuel" by simp
      from Suc.IH [OF this, of "iteration + 1"] show ?thesis using Inr False by simp
    qed
  qed
qed

lemma removal_loop_result:
  "removal_loop fuel iteration g = Some (Inr (k, r)) \<Longrightarrow>
   \<exists>m p. k = iteration + Suc m \<and> cycles m g = Inr p \<and> removal_cycle p = Inr r \<and>
         number_of_nodes p = number_of_nodes r \<and>
         (\<forall>j<m. \<forall>a b. cycles j g = Inr a \<longrightarrow> removal_cycle a = Inr b \<longrightarrow> number_of_nodes b < number_of_nodes a)"
proof (induction fuel arbitrary: g iteration)
  case 0
  then show ?case by simp
next
  case (Suc fuel)
  from Suc.prems obtain g' where c: "removal_cycle g = Inr g'"
    by (cases "removal_cycle g") auto
  show ?case
  proof (cases "number_of_nodes g = number_of_nodes g'")
    case True
    with Suc.prems c have "k = iteration + Suc 0" "r = g'" by simp_all
    with c True show ?thesis by (intro exI [of _ 0] exI [of _ g]) simp
  next
    case False
    with Suc.prems c have "removal_loop fuel (iteration + 1) g' = Some (Inr (k, r))" by simp
    from Suc.IH [OF this] obtain m p where
      k: "k = iteration + 1 + Suc m" and p: "cycles m g' = Inr p" and pr: "removal_cycle p = Inr r"
      and eq: "number_of_nodes p = number_of_nodes r"
      and dec: "\<forall>j<m. \<forall>a b. cycles j g' = Inr a \<longrightarrow> removal_cycle a = Inr b \<longrightarrow> number_of_nodes b < number_of_nodes a"
      by blast
    have lt: "number_of_nodes g' < number_of_nodes g"
      using removal_cycle_count [OF c] False by simp
    have "\<forall>j<Suc m. \<forall>a b. cycles j g = Inr a \<longrightarrow> removal_cycle a = Inr b \<longrightarrow> number_of_nodes b < number_of_nodes a"
    proof (intro allI impI)
      fix j a b
      assume j: "j < Suc m" and a: "cycles j g = Inr a" and b: "removal_cycle a = Inr b"
      show "number_of_nodes b < number_of_nodes a"
      proof (cases j)
        case 0
        with a b c lt show ?thesis by simp
      next
        case (Suc j')
        with a c have "cycles j' g' = Inr a" by simp
        with dec j Suc b show ?thesis by simp
      qed
    qed
    moreover have "cycles (Suc m) g = Inr p" using c p by simp
    ultimately show ?thesis using k pr eq by (intro exI [of _ "Suc m"] exI [of _ p]) simp
  qed
qed

text \<open>
  C6.  For every graph, the loop returns within as many cycles as the graph has
  nodes, plus one (an exception raised by a rule also ends it).  A cycle applies
  the four rules in their order and none of them increases the number of nodes.
  When the loop returns a graph after \<open>k\<close> cycles, the last cycle left the number
  of nodes as it was and every cycle before it made it smaller: the loop halts at
  the first cycle that removes nothing.
\<close>

theorem removal_loop_terminates:
  "(\<exists>r. removal_loop (Suc (number_of_nodes g)) 0 g = Some r) \<and>
   (\<forall>g4. removal_cycle g = Inr g4 \<longrightarrow>
      (\<exists>g1 g2 g3. remove_minor_edges g = Inr g1 \<and> straighten_edges g1 = Inr g2 \<and>
         merge_close_nodes g2 = Inr g3 \<and> remove_children_without_children g3 = Inr g4 \<and>
         number_of_nodes g1 \<le> number_of_nodes g \<and> number_of_nodes g2 \<le> number_of_nodes g1 \<and>
         number_of_nodes g3 \<le> number_of_nodes g2 \<and> number_of_nodes g4 \<le> number_of_nodes g3)) \<and>
   (\<forall>fuel k r. removal_loop fuel 0 g = Some (Inr (k, r)) \<longrightarrow>
      (\<exists>p. 0 < k \<and> cycles (k - 1) g = Inr p \<and> removal_cycle p = Inr r \<and>
         number_of_nodes p = number_of_nodes r \<and>
         (\<forall>j<k - 1. \<forall>a b. cycles j g = Inr a \<longrightarrow> removal_cycle a = Inr b \<longrightarrow>
            number_of_nodes b < number_of_nodes a)))"
proof (intro conjI allI impI)
  show "\<exists>r. removal_loop (Suc (number_of_nodes g)) 0 g = Some r"
    by (rule removal_loop_returns) simp
next
  fix g4
  assume "removal_cycle g = Inr g4"
  then obtain g1 g2 g3 where s:
    "remove_minor_edges g = Inr g1" "straighten_edges g1 = Inr g2"
    "merge_close_nodes g2 = Inr g3" "remove_children_without_children g3 = Inr g4"
    unfolding removal_cycle_steps by blast
  then show "\<exists>g1 g2 g3. remove_minor_edges g = Inr g1 \<and> straighten_edges g1 = Inr g2 \<and>
         merge_close_nodes g2 = Inr g3 \<and> remove_children_without_children g3 = Inr g4 \<and>
         number_of_nodes g1 \<le> number_of_nodes g \<and> number_of_nodes g2 \<le> number_of_nodes g1 \<and>
         number_of_nodes g3 \<le> number_of_nodes g2 \<and> number_of_nodes g4 \<le> number_of_nodes g3"
    using remove_minor_edges_count [OF s(1)] straighten_edges_count [OF s(2)]
      merge_close_nodes_count [OF s(3)] remove_children_without_children_count [OF s(4)]
    by blast
next
  fix fuel k r
  assume "removal_loop fuel 0 g = Some (Inr (k, r))"
  from removal_loop_result [OF this] obtain m p where
    "k = 0 + Suc m" "cycles m g = Inr p" "removal_cycle p = Inr r"
    "number_of_nodes p = number_of_nodes r"
    "\<forall>j<m. \<forall>a b. cycles j g = Inr a \<longrightarrow> removal_cycle a = Inr b \<longrightarrow> number_of_nodes b < number_of_nodes a"
    by blast
  then show "\<exists>p. 0 < k \<and> cycles (k - 1) g = Inr p \<and> removal_cycle p = Inr r \<and>
         number_of_nodes p = number_of_nodes r \<and>
         (\<forall>j<k - 1. \<forall>a b. cycles j g = Inr a \<longrightarrow> removal_cycle a = Inr b \<longrightarrow>
            number_of_nodes b < number_of_nodes a)"
    by (intro exI [of _ p]) simp
qed

lemma removal_root_only:
  "remove_minor_edges root_only = Inr root_only"
  "straighten_edges root_only = Inr root_only"
  "merge_close_nodes root_only = Inr root_only"
  "remove_children_without_children root_only = Inr root_only"
proof -
  have b: "bfs_blocks root_only [''0''] [''0''] = [(''0'', [])]"
    by (simp add: bfs_blocks.simps neighbors_def root_only_def)
  have a: "map_of (adj_list root_only) ''0'' = Some []" by (simp add: root_only_def)
  show "remove_minor_edges root_only = Inr root_only"
    by (simp add: remove_minor_edges_def minor_edge_nodes_def bfs_successors_def bfs_edges_def root_def b a)
  show "straighten_edges root_only = Inr root_only"
    by (simp add: straighten_edges_def bfs_predecessors_def bfs_successors_def bfs_edges_def root_def b a
        only_single_successor_def py_dict_def)
  show "merge_close_nodes root_only = Inr root_only"
    by (simp add: merge_close_nodes_def close_nodes_def bfs_successors_def bfs_edges_def root_def b a py_dict_def)
  show "remove_children_without_children root_only = Inr root_only"
    by (simp add: remove_children_without_children_def childless_nodes_def bfs_successors_def root_def b a
        py_dict_def nodes_to_check_def check_round_def)
qed

theorem removal_loop_terminates_witness:
  "removal_loop (Suc (number_of_nodes tree_leaf6)) 0 tree_leaf6 = Some (Inr (2, root_only)) \<and>
   removal_cycle tree_leaf6 = Inr root_only \<and>
   number_of_nodes root_only < number_of_nodes tree_leaf6 \<and>
   cycles (2 - 1) tree_leaf6 = Inr root_only \<and>
   removal_cycle root_only = Inr root_only"
proof -
  have m: "remove_minor_edges tree_leaf6 = Inr root_only" by code_simp
  have h2: "removal_cycle tree_leaf6 = Inr root_only"
    by (simp add: removal_cycle_def m removal_root_only)
  have h0: "removal_cycle root_only = Inr root_only"
    by (simp add: removal_cycle_def removal_root_only)
  have n: "number_of_nodes tree_leaf6 = 2" "number_of_nodes root_only = 1"
    by (simp_all add: number_of_nodes_def tree_leaf6_def root_only_def)
  have h1: "removal_loop (Suc (number_of_nodes tree_leaf6)) 0 tree_leaf6 = Some (Inr (2, root_only))"
    by (simp add: n h2 h0 numeral_2_eq_2)
  have h3: "cycles 0 tree_leaf6 = Inr tree_leaf6" by simp
  have h4: "cycles (2 - 1) tree_leaf6 = Inr root_only" using h2 by simp
  from removal_loop_terminates [of tree_leaf6] h1
  obtain p where p: "cycles (2 - 1) tree_leaf6 = Inr p" "removal_cycle p = Inr root_only"
    "\<forall>j<2 - 1. \<forall>a b. cycles j tree_leaf6 = Inr a \<longrightarrow> removal_cycle a = Inr b \<longrightarrow>
        number_of_nodes b < number_of_nodes a"
    by blast
  from p(1) h4 have "p = root_only" by simp
  moreover have "(0::nat) < 2 - 1" by simp
  from p(3) [rule_format, OF this h3 h2]
  have "number_of_nodes root_only < number_of_nodes tree_leaf6" .
  ultimately show ?thesis using h1 h2 h4 p(2) by simp
qed

section \<open>Close-node merging\<close>

text \<open>The edges of a traversal: every block with its parent paired to each child.\<close>

definition block_edges :: "(node_id \<times> node_id list) list \<Rightarrow> (node_id \<times> node_id) list" where
  "block_edges bs = concat (map (\<lambda>(p, cs). map (Pair p) cs) bs)"

lemma block_edges_simps [simp]:
  "block_edges [] = []"
  "block_edges ((p, cs) # bs) = map (Pair p) cs @ block_edges bs"
  "block_edges (bs1 @ bs2) = block_edges bs1 @ block_edges bs2"
  by (simp_all add: block_edges_def)

lemma block_edges_targets: "map snd (block_edges bs) = targets bs"
  by (induction bs) (auto simp: comp_def)

lemma bfs_edges_blocks: "bfs_edges g s = Inr es \<Longrightarrow> es = block_edges (bfs_blocks g [s] [s])"
  by (simp add: bfs_edges_def block_edges_def split: if_splits)

lemma bfs_edges_targets:
  assumes "bfs_edges g s = Inr es"
  shows "distinct (map snd es)" and "s \<notin> snd ` set es"
proof -
  have m: "map snd es = targets (bfs_blocks g [s] [s])"
    using bfs_edges_blocks [OF assms] block_edges_targets by simp
  show "distinct (map snd es)" using m bfs_targets [of g "[s]" "[s]"] by simp
  have "set (map snd es) \<inter> set [s] = {}" using m bfs_targets [of g "[s]" "[s]"] by simp
  then show "s \<notin> snd ` set es" by auto
qed

text \<open>In a duplicate-free list an element found in a front part lies wholly inside it.\<close>

lemma prefix_of_distinct:
  assumes "es1 @ e # es2 = front @ rest" and "distinct (map f (front @ rest))" and "f e \<in> f ` set front"
  shows "set es1 \<subseteq> set front"
proof -
  from assms(1) obtain us where
    "(es1 = front @ us \<and> us @ e # es2 = rest) \<or> (es1 @ us = front \<and> e # es2 = us @ rest)"
    unfolding append_eq_append_conv2 by blast
  then show ?thesis
  proof
    assume "es1 = front @ us \<and> us @ e # es2 = rest"
    then have "e \<in> set rest" by auto
    then have "f e \<in> f ` set rest" by blast
    with assms(2,3) show ?thesis by auto
  next
    assume "es1 @ us = front \<and> e # es2 = us @ rest"
    then show ?thesis by auto
  qed
qed

definition children_later :: "(node_id \<times> node_id list) list \<Rightarrow> (node_id \<times> node_id) list \<Rightarrow> bool" where
  "children_later hs es =
     (\<forall>es1 p n es2 cs. es = es1 @ (p, n) # es2 \<longrightarrow> map_of hs n = Some cs \<longrightarrow>
        set cs \<inter> snd ` set es1 = {} \<and> n \<notin> set cs)"

lemma bfs_children_later:
  assumes ss: "bfs_successors g s = Inr ss" and es: "bfs_edges g s = Inr es"
  shows "children_later (py_dict ss) es"
  unfolding children_later_def
proof (intro allI impI)
  fix es1 p n es2 cs
  assume split: "es = es1 @ (p, n) # es2" and look: "map_of (py_dict ss) n = Some cs"
  let ?bs = "bfs_blocks g [s] [s]"
  have d: "py_dict ss = ss" using bfs_successors_keys(1) [OF ss] by (rule py_dict_distinct)
  then have mem: "(n, cs) \<in> set ss" using look by (auto dest: map_of_SomeD)
  have ebs: "es = block_edges ?bs" by (rule bfs_edges_blocks [OF es])
  have tg: "distinct (targets ?bs)" "s \<notin> set (targets ?bs)"
    using bfs_targets [of g "[s]" "[s]"] by auto
  have n_target: "n \<in> set (targets ?bs)"
    using split ebs block_edges_targets [of ?bs] by (metis in_set_conv_decomp list.set_map image_eqI snd_conv)
  show "set cs \<inter> snd ` set es1 = {} \<and> n \<notin> set cs"
  proof (cases "cs = []")
    case True
    then show ?thesis by simp
  next
    case False
    have "ss = (let bs = filter (\<lambda>(p, cs). cs \<noteq> []) ?bs in if bs = [] then [(s, [])] else bs)"
      using ss by (simp add: bfs_successors_def Let_def split: if_splits)
    with mem False have "(n, cs) \<in> set ?bs" by (auto simp: Let_def split: if_splits)
    then obtain b1 b2 where b: "?bs = b1 @ (n, cs) # b2" by (auto simp: in_set_conv_decomp)
    from bfs_key_origin [OF b] n_target tg(2) have nb1: "n \<in> set (targets b1)" by auto
    have dist: "distinct (targets b1 @ cs @ targets b2)" using tg(1) b by simp
    have e2: "es1 @ (p, n) # es2 = block_edges b1 @ (map (Pair n) cs @ block_edges b2)"
      using split ebs b by simp
    have "distinct (map snd (block_edges b1 @ (map (Pair n) cs @ block_edges b2)))"
      using dist by (simp add: block_edges_targets comp_def)
    moreover have "snd (p, n) \<in> snd ` set (block_edges b1)"
      using nb1 block_edges_targets [of b1] by (metis list.set_map snd_conv)
    ultimately have "set es1 \<subseteq> set (block_edges b1)" using prefix_of_distinct [OF e2] by blast
    then have "snd ` set es1 \<subseteq> set (targets b1)"
      using block_edges_targets [of b1] by (metis image_mono list.set_map)
    with dist nb1 show ?thesis by auto
  qed
qed

text \<open>What one edge does to the state of the loop of \<^verbatim>\<open>merge_close_nodes\<close>.\<close>

lemma close_loop_step:
  assumes "close_loop g hs ((predecessor, node) # es) rm em cant = Inr (rm', em')"
  shows "close_loop g hs es rm em cant = Inr (rm', em') \<or>
         node \<notin> cant \<and>
         close_loop g hs es (rm @ [node])
           (em @ map (\<lambda>successor. (predecessor, node, successor)) (case map_of hs node of None \<Rightarrow> [] | Some ss \<Rightarrow> ss))
           (cant \<union> set (case map_of hs node of None \<Rightarrow> [] | Some ss \<Rightarrow> ss)) = Inr (rm', em')"
  using assms by (auto split: if_splits sum.splits option.splits)

lemma close_loop_protected:
  assumes "close_loop g hs es rm em cant = Inr (rm', em')"
    and "children_later hs (done @ es)"
    and "set rm \<subseteq> snd ` set done"
    and "\<And>n cs. n \<in> set rm \<Longrightarrow> map_of hs n = Some cs \<Longrightarrow> set cs \<subseteq> cant"
    and "set rm \<inter> cant = {}"
  shows "set rm' \<inter> cant = {} \<and>
         (\<forall>n cs. n \<in> set rm' \<longrightarrow> map_of hs n = Some cs \<longrightarrow> set cs \<inter> set rm' = {})"
  using assms
proof (induction es arbitrary: "done" rm em cant)
  case Nil
  then have "rm' = rm" by simp
  with Nil.prems(4,5) show ?case by blast
next
  case (Cons e es)
  obtain predecessor node where e: "e = (predecessor, node)" by (cases e)
  have later: "children_later hs ((done @ [e]) @ es)" using Cons.prems(2) by simp
  have sub: "set rm \<subseteq> snd ` set (done @ [e])" using Cons.prems(3) by auto
  let ?ss = "case map_of hs node of None \<Rightarrow> [] | Some ss \<Rightarrow> ss"
  from close_loop_step [OF Cons.prems(1) [unfolded e]]
  show ?case
  proof
    assume "close_loop g hs es rm em cant = Inr (rm', em')"
    from Cons.IH [OF this later sub Cons.prems(4,5)] show ?thesis by simp
  next
    assume a: "node \<notin> cant \<and>
         close_loop g hs es (rm @ [node]) (em @ map (\<lambda>successor. (predecessor, node, successor)) ?ss)
           (cant \<union> set ?ss) = Inr (rm', em')"
    then have nc: "node \<notin> cant" and
      r: "close_loop g hs es (rm @ [node]) (em @ map (\<lambda>successor. (predecessor, node, successor)) ?ss)
           (cant \<union> set ?ss) = Inr (rm', em')" by simp_all
    have cl: "set ?ss \<inter> snd ` set done = {}" "node \<notin> set ?ss"
    proof -
      show "set ?ss \<inter> snd ` set done = {}"
      proof (cases "map_of hs node")
        case None then show ?thesis by simp
      next
        case (Some ss)
        have "done @ e # es = done @ (predecessor, node) # es" using e by simp
        with Cons.prems(2) Some have "set ss \<inter> snd ` set done = {}"
          unfolding children_later_def by blast
        with Some show ?thesis by simp
      qed
      show "node \<notin> set ?ss"
      proof (cases "map_of hs node")
        case None then show ?thesis by simp
      next
        case (Some ss)
        have "done @ e # es = done @ (predecessor, node) # es" using e by simp
        with Cons.prems(2) Some have "node \<notin> set ss"
          unfolding children_later_def by blast
        with Some show ?thesis by simp
      qed
    qed
    have sub1: "set (rm @ [node]) \<subseteq> snd ` set (done @ [e])"
    proof -
      have "node \<in> snd ` set (done @ [e])" using e by (simp add: image_iff)
      with sub show ?thesis by simp
    qed
    have a4: "set cs \<subseteq> cant \<union> set ?ss" if "n \<in> set (rm @ [node])" "map_of hs n = Some cs" for n cs
    proof (cases "n = node")
      case True
      with that(2) show ?thesis by simp
    next
      case False
      with that(1) have "n \<in> set rm" by simp
      from Cons.prems(4) [OF this that(2)] show ?thesis by blast
    qed
    have "set rm \<inter> set ?ss = {}" using Cons.prems(3) cl(1) by blast
    with Cons.prems(5) nc cl(2) have a5: "set (rm @ [node]) \<inter> (cant \<union> set ?ss) = {}" by auto
    from Cons.IH [OF r later sub1 a4 a5]
    have "set rm' \<inter> (cant \<union> set ?ss) = {}"
      and k: "\<forall>n cs. n \<in> set rm' \<longrightarrow> map_of hs n = Some cs \<longrightarrow> set cs \<inter> set rm' = {}"
      by simp_all
    then have "set rm' \<inter> cant = {}" by blast
    with k show ?thesis by simp
  qed
qed

lemma close_loop_merges:
  assumes "close_loop g hs es rm em cant = Inr (rm', em')"
    and "\<And>p n s. (p, n, s) \<in> set em \<Longrightarrow> n \<in> set rm \<and> (\<exists>cs. map_of hs n = Some cs \<and> s \<in> set cs)"
  shows "set rm \<subseteq> set rm' \<and>
         (\<forall>p n s. (p, n, s) \<in> set em' \<longrightarrow> n \<in> set rm' \<and> (\<exists>cs. map_of hs n = Some cs \<and> s \<in> set cs))"
  using assms
proof (induction es arbitrary: rm em cant)
  case Nil
  then have "rm' = rm" "em' = em" by simp_all
  with Nil.prems(2) show ?case by blast
next
  case (Cons e es)
  obtain predecessor node where e: "e = (predecessor, node)" by (cases e)
  let ?ss = "case map_of hs node of None \<Rightarrow> [] | Some ss \<Rightarrow> ss"
  from close_loop_step [OF Cons.prems(1) [unfolded e]]
  show ?case
  proof
    assume "close_loop g hs es rm em cant = Inr (rm', em')"
    from Cons.IH [OF this Cons.prems(2)] show ?thesis by simp
  next
    assume "node \<notin> cant \<and>
         close_loop g hs es (rm @ [node]) (em @ map (\<lambda>successor. (predecessor, node, successor)) ?ss)
           (cant \<union> set ?ss) = Inr (rm', em')"
    then have r: "close_loop g hs es (rm @ [node]) (em @ map (\<lambda>successor. (predecessor, node, successor)) ?ss)
           (cant \<union> set ?ss) = Inr (rm', em')" by simp
    have inv: "n \<in> set (rm @ [node]) \<and> (\<exists>cs. map_of hs n = Some cs \<and> s \<in> set cs)"
      if "(p, n, s) \<in> set (em @ map (\<lambda>successor. (predecessor, node, successor)) ?ss)" for p n s
    proof (cases "(p, n, s) \<in> set em")
      case True
      from Cons.prems(2) [OF this] show ?thesis by simp
    next
      case False
      with that have "n = node" "s \<in> set ?ss" by auto
      then show ?thesis by (cases "map_of hs node") simp_all
    qed
    from Cons.IH [OF r inv] show ?thesis by simp
  qed
qed

text \<open>
  The chain \<^verbatim>\<open>0 - N - S\<close> with all nodes at one point and edges of weight 0 with
  one caliber sample 4, so that both edges pass the test of closeness; and the
  tree \<^verbatim>\<open>0 - S\<close> that is left when N has been merged.
\<close>

definition close_edge :: "string \<Rightarrow> edge_attr" where
  "close_edge s = \<lparr>weight = 0, group_sizes = s\<rparr>"

definition tree_close :: graph where
  "tree_close =
     \<lparr>node_list = [(''0'', plain_node 0 0), (''N'', plain_node 0 1), (''S'', plain_node 0 2)],
      adj_list = [(''0'', [(''N'', close_edge ''4'')]),
                  (''N'', [(''0'', close_edge ''4''), (''S'', close_edge ''4'')]),
                  (''S'', [(''N'', close_edge ''4'')])]\<rparr>"

definition tree_close_merged :: graph where
  "tree_close_merged =
     \<lparr>node_list = [(''0'', plain_node 0 0), (''S'', plain_node 0 2)],
      adj_list = [(''0'', [(''S'', close_edge ''4 4'')]),
                  (''S'', [(''0'', close_edge ''4 4'')])]\<rparr>"

lemma is_close_examples:
  "is_close (close_edge ''4'') = Inr True"
  "is_close (close_edge ''4 4'') = Inr True"
proof -
  have s: "map_int (py_split ''4'') = Inr [4]" "map_int (py_split ''4 4'') = Inr [4, 4]" by code_simp+
  show "is_close (close_edge ''4'') = Inr True"
    by (simp add: is_close_def close_edge_def s calc_diameter_def DIAMETER_TO_WEIGHT_RATIO_def)
  show "is_close (close_edge ''4 4'') = Inr True"
    by (simp add: is_close_def close_edge_def s calc_diameter_def DIAMETER_TO_WEIGHT_RATIO_def)
qed

lemma tree_close_pass:
  "close_nodes tree_close = Inr ([''N''], [(''0'', ''N'', ''S'')])"
  "merge_close_nodes tree_close = Inr tree_close_merged"
  "merge_close_nodes tree_close_merged = Inr root_only"
proof -
  have e: "bfs_edges tree_close root = Inr [(''0'', ''N''), (''N'', ''S'')]"
    "bfs_successors tree_close root = Inr [(''0'', [''N'']), (''N'', [''S''])]"
    "bfs_edges tree_close_merged root = Inr [(''0'', ''S'')]"
    "bfs_successors tree_close_merged root = Inr [(''0'', [''S''])]"
    by code_simp+
  show c: "close_nodes tree_close = Inr ([''N''], [(''0'', ''N'', ''S'')])"
    by (simp add: close_nodes_def e py_dict_def)
       (simp add: tree_close_def edge_at_def is_close_examples root_def)
  show "merge_close_nodes tree_close = Inr tree_close_merged"
    by (simp add: merge_close_nodes_def c)
       (simp add: tree_close_def tree_close_merged_def merge_edges_def distance_def node_at_def
          combine_group_sizes_def edge_at_def add_edge_def adj_put_def remove_node_def node_ids_def
          close_edge_def plain_node_def)
  have c2: "close_nodes tree_close_merged = Inr ([''S''], [])"
    by (simp add: close_nodes_def e py_dict_def)
       (simp add: tree_close_merged_def edge_at_def is_close_examples root_def)
  show "merge_close_nodes tree_close_merged = Inr root_only"
    by (simp add: merge_close_nodes_def c2)
       (simp add: tree_close_merged_def root_only_def remove_node_def node_ids_def)
qed

text \<open>
  C9.  One pass of close-node merging never puts the root on the list of nodes
  to remove, and a node that a merge of this pass hangs below its grandparent,
  that is, every successor in \<^verbatim>\<open>edges_to_be_merged\<close>, is not on that list either,
  whatever the weight and the caliber of its edge.  So the root and these
  successors are nodes of the graph after the pass if they were before.
\<close>

theorem merge_close_nodes_protects:
  assumes "close_nodes g = Inr (rm, em)" and "merge_close_nodes g = Inr g'"
  shows "root \<notin> set rm \<and>
         (\<forall>p n s. (p, n, s) \<in> set em \<longrightarrow> n \<in> set rm \<and> s \<notin> set rm) \<and>
         set (node_ids g') = set (node_ids g) - set rm \<and>
         (root \<in> set (node_ids g) \<longrightarrow> root \<in> set (node_ids g')) \<and>
         (\<forall>p n s. (p, n, s) \<in> set em \<longrightarrow> s \<in> set (node_ids g) \<longrightarrow> s \<in> set (node_ids g'))"
proof -
  from assms(1) obtain ss es where ss: "bfs_successors g root = Inr ss"
    and es: "bfs_edges g root = Inr es"
    and loop: "close_loop g (py_dict ss) es [] [] {root} = Inr (rm, em)"
    by (auto simp: close_nodes_def split: sum.splits)
  have later: "children_later (py_dict ss) ([] @ es)"
    using bfs_children_later [OF ss es] by simp
  have prot: "set rm \<inter> {root} = {} \<and>
      (\<forall>n cs. n \<in> set rm \<longrightarrow> map_of (py_dict ss) n = Some cs \<longrightarrow> set cs \<inter> set rm = {})"
    by (rule close_loop_protected [OF loop later]) simp_all
  have mer: "set [] \<subseteq> set rm \<and>
      (\<forall>p n s. (p, n, s) \<in> set em \<longrightarrow> n \<in> set rm \<and> (\<exists>cs. map_of (py_dict ss) n = Some cs \<and> s \<in> set cs))"
    by (rule close_loop_merges [OF loop]) simp
  have r: "root \<notin> set rm" using prot by simp
  have m: "n \<in> set rm \<and> s \<notin> set rm" if "(p, n, s) \<in> set em" for p n s
  proof -
    from mer that obtain cs where "n \<in> set rm" "map_of (py_dict ss) n = Some cs" "s \<in> set cs"
      by blast
    with prot show ?thesis by blast
  qed
  from assms obtain g1 where g1: "merge_all g em = Inr g1" and rn: "remove_nodes g1 rm = Inr g'"
    by (auto simp: merge_close_nodes_def split: sum.splits)
  have "node_ids g1 = node_ids g" using merge_all_nodes [OF g1] by (simp add: node_ids_def)
  with remove_nodes_ids [OF rn] have ids: "set (node_ids g') = set (node_ids g) - set rm" by auto
  show ?thesis using r m ids by blast
qed

text \<open>
  In \<open>tree_close\<close> the edge into S passes the test, yet the pass removes only N;
  S is merged by the next pass.
\<close>

theorem merge_close_nodes_protects_witness:
  "close_nodes tree_close = Inr ([''N''], [(''0'', ''N'', ''S'')]) \<and>
   edge_at tree_close ''N'' ''S'' = Inr (close_edge ''4'') \<and>
   is_close (close_edge ''4'') = Inr True \<and>
   merge_close_nodes tree_close = Inr tree_close_merged \<and>
   ''S'' \<notin> set [''N''] \<and>
   root \<in> set (node_ids tree_close_merged) \<and>
   ''S'' \<in> set (node_ids tree_close_merged) \<and>
   merge_close_nodes tree_close_merged = Inr root_only"
proof -
  have e: "edge_at tree_close ''N'' ''S'' = Inr (close_edge ''4'')"
    by (simp add: tree_close_def edge_at_def)
  have n: "root \<in> set (node_ids tree_close)" "''S'' \<in> set (node_ids tree_close)"
    by (simp_all add: tree_close_def node_ids_def root_def)
  have m: "(''0'', ''N'', ''S'') \<in> set [(''0'', ''N'', ''S'')]" by simp
  from merge_close_nodes_protects [OF tree_close_pass(1) tree_close_pass(2)] n m
  have "root \<in> set (node_ids tree_close_merged)" "''S'' \<in> set (node_ids tree_close_merged)"
    "''S'' \<notin> set [''N'']"
    by blast+
  then show ?thesis using e tree_close_pass is_close_examples(1) by simp
qed

section \<open>Descendant counts\<close>

text \<open>
  Relations in which every node has at most one predecessor; with no cycle they
  are forests, and the descendants of a node are its children and theirs.
\<close>

definition single_parent :: "('a \<times> 'a) set \<Rightarrow> bool" where
  "single_parent E = (\<forall>a b m. (a, m) \<in> E \<longrightarrow> (b, m) \<in> E \<longrightarrow> a = b)"

lemma unique_pred_chain:
  assumes up: "single_parent E"
    and xm: "(x, m) \<in> E\<^sup>*"
  shows "(y, m) \<in> E\<^sup>* \<longrightarrow> (x, y) \<in> E\<^sup>* \<or> (y, x) \<in> E\<^sup>*"
  using xm
proof (induction rule: rtrancl_induct)
  case base
  show ?case by simp
next
  case (step m1 m2)
  note xm1 = step(1) and e = step(2) and ih = step(3)
  show ?case
  proof
    assume "(y, m2) \<in> E\<^sup>*"
    then show "(x, y) \<in> E\<^sup>* \<or> (y, x) \<in> E\<^sup>*"
    proof (cases rule: rtranclE)
      case base
      with xm1 e show ?thesis by (meson rtrancl.rtrancl_into_rtrancl)
    next
      case (step k)
      with up e have "k = m1" unfolding single_parent_def by blast
      with step(1) ih show ?thesis by blast
    qed
  qed
qed

lemma forest_subtrees_disjoint:
  assumes up: "single_parent E"
    and acyc: "acyclic E"
    and c1: "(p, c1) \<in> E" and c2: "(p, c2) \<in> E" and ne: "c1 \<noteq> c2"
  shows "E\<^sup>* `` {c1} \<inter> E\<^sup>* `` {c2} = {}"
proof (rule ccontr)
  assume "E\<^sup>* `` {c1} \<inter> E\<^sup>* `` {c2} \<noteq> {}"
  then obtain m where m1: "(c1, m) \<in> E\<^sup>*" and m2: "(c2, m) \<in> E\<^sup>*" by blast
  have below: False if ab: "(a, b) \<in> E\<^sup>*" and pa: "(p, a) \<in> E" and pb: "(p, b) \<in> E" and "a \<noteq> b" for a b
  proof -
    from ab \<open>a \<noteq> b\<close> have "(a, b) \<in> E\<^sup>+" by (simp add: rtrancl_eq_or_trancl)
    then obtain k where ak: "(a, k) \<in> E\<^sup>*" and kb: "(k, b) \<in> E" by (meson tranclD2)
    from up kb pb have "k = p" unfolding single_parent_def by blast
    with ak pa have "(p, p) \<in> E\<^sup>+" by (meson rtrancl_into_trancl2)
    with acyc show False unfolding acyclic_def by blast
  qed
  from unique_pred_chain [OF up m1, of c2] m2 have "(c1, c2) \<in> E\<^sup>* \<or> (c2, c1) \<in> E\<^sup>*" by blast
  then show False using below [of c1 c2] below [of c2 c1] c1 c2 ne by blast
qed

lemma descendants_unfold: "E\<^sup>+ `` {p} = (\<Union>c \<in> E `` {p}. E\<^sup>* `` {c})"
proof
  show "E\<^sup>+ `` {p} \<subseteq> (\<Union>c \<in> E `` {p}. E\<^sup>* `` {c})"
    by (auto dest: tranclD)
  show "(\<Union>c \<in> E `` {p}. E\<^sup>* `` {c}) \<subseteq> E\<^sup>+ `` {p}"
    by (auto intro: rtrancl_into_trancl2)
qed

lemma subtree_insert: "E\<^sup>* `` {c} = insert c (E\<^sup>+ `` {c})"
  by (auto simp: rtrancl_eq_or_trancl)

lemma forest_card:
  assumes up: "single_parent E"
    and acyc: "acyclic E"
    and fin: "finite E"
    and ch: "E `` {p} = set cs" and dist: "distinct cs"
  shows "int (card (E\<^sup>+ `` {p})) = sum_list (map (\<lambda>c. int (card (E\<^sup>+ `` {c})) + 1) cs)"
proof -
  have finT: "finite (E\<^sup>+ `` {a})" for a
  proof -
    have "E\<^sup>+ `` {a} \<subseteq> snd ` E"
    proof
      fix x assume "x \<in> E\<^sup>+ `` {a}"
      then have "(a, x) \<in> E\<^sup>+" by simp
      then obtain k where "(k, x) \<in> E" by (meson tranclD2)
      then show "x \<in> snd ` E" by force
    qed
    with fin show ?thesis by (meson finite_imageI finite_subset)
  qed
  have finS: "finite (E\<^sup>* `` {a})" for a using finT [of a] by (simp add: subtree_insert)
  have cardS: "card (E\<^sup>* `` {a}) = card (E\<^sup>+ `` {a}) + 1" for a
    using acyc finT [of a] by (simp add: subtree_insert acyclic_def)
  have disj: "\<forall>c1\<in>set cs. \<forall>c2\<in>set cs. c1 \<noteq> c2 \<longrightarrow> E\<^sup>* `` {c1} \<inter> E\<^sup>* `` {c2} = {}"
  proof (intro ballI impI)
    fix c1 c2 assume "c1 \<in> set cs" "c2 \<in> set cs" "c1 \<noteq> c2"
    with ch have "(p, c1) \<in> E" "(p, c2) \<in> E" by auto
    from forest_subtrees_disjoint [OF up acyc this \<open>c1 \<noteq> c2\<close>]
    show "E\<^sup>* `` {c1} \<inter> E\<^sup>* `` {c2} = {}" .
  qed
  have "card (E\<^sup>+ `` {p}) = card (\<Union>c \<in> set cs. E\<^sup>* `` {c})"
    using descendants_unfold [of E p] ch by simp
  also have "\<dots> = (\<Sum>c \<in> set cs. card (E\<^sup>* `` {c}))"
    using disj finS by (intro card_UN_disjoint) auto
  also have "\<dots> = (\<Sum>c \<in> set cs. card (E\<^sup>+ `` {c}) + 1)" by (simp add: cardS)
  also have "\<dots> = sum_list (map (\<lambda>c. card (E\<^sup>+ `` {c}) + 1) cs)"
    using dist by (simp add: sum_list_distinct_conv_sum_set)
  finally have "int (card (E\<^sup>+ `` {p})) = int (sum_list (map (\<lambda>c. card (E\<^sup>+ `` {c}) + 1) cs))"
    by simp
  also have "\<dots> = sum_list (map (\<lambda>c. int (card (E\<^sup>+ `` {c})) + 1) cs)"
    by (induction cs) simp_all
  finally show ?thesis .
qed

text \<open>The strict descendants of a node in the tree of the traversal.\<close>

definition descendants :: "(node_id \<times> node_id) list \<Rightarrow> node_id \<Rightarrow> node_id set" where
  "descendants es n = (set es)\<^sup>+ `` {n}"

definition rank :: "(node_id \<times> node_id list) list \<Rightarrow> node_id \<Rightarrow> nat" where
  "rank bs n = length (dropWhile (\<lambda>b. fst b \<noteq> n) bs)"

lemma rank_le: "rank bs n \<le> length bs"
  by (simp add: rank_def length_dropWhile_le)

lemma rank_pos: "n \<in> fst ` set bs \<Longrightarrow> 0 < rank bs n"
  by (auto simp: rank_def dropWhile_eq_Nil_conv)

lemma rank_child:
  assumes "bs = b1 @ (p, cs) # b2" and "distinct (map fst bs)" and "c \<in> fst ` set b2"
  shows "rank bs c < rank bs p"
proof -
  have d: "p \<notin> fst ` set b1" "fst ` set b1 \<inter> fst ` set b2 = {}" "p \<notin> fst ` set b2"
    using assms(2) unfolding assms(1) by auto
  have p: "\<And>b. b \<in> set b1 \<Longrightarrow> fst b \<noteq> p" using d(1) by force
  have "rank bs p = Suc (length b2)"
    unfolding rank_def assms(1) using p by (simp add: dropWhile_append2)
  moreover have "c \<notin> fst ` set b1" "c \<noteq> p" using d assms(3) by auto
  then have c: "\<And>b. b \<in> set (b1 @ [(p, cs)]) \<Longrightarrow> fst b \<noteq> c" by force
  have "dropWhile (\<lambda>b. fst b \<noteq> c) ((b1 @ [(p, cs)]) @ b2) = dropWhile (\<lambda>b. fst b \<noteq> c) b2"
    using c by (rule dropWhile_append2)
  then have "rank bs c \<le> length b2"
    unfolding rank_def assms(1) by (simp add: length_dropWhile_le)
  ultimately show ?thesis by simp
qed

lemma in_block_edges:
  "((q, c) \<in> set (block_edges bs)) = (\<exists>cs. (q, cs) \<in> set bs \<and> c \<in> set cs)"
proof (induction bs)
  case Nil
  show ?case by simp
next
  case (Cons b bs)
  obtain p cs where b: "b = (p, cs)" by (cases b)
  show ?case unfolding b using Cons.IH by (simp add: image_iff) blast
qed

lemma block_children:
  assumes "distinct (map fst bs)" and "(p, cs) \<in> set bs"
  shows "set (block_edges bs) `` {p} = set cs"
proof -
  have e: "cs' = cs" if "(p, cs') \<in> set bs" for cs'
    using eq_key_imp_eq_value [OF assms(1) that assms(2)] .
  show ?thesis
  proof (intro set_eqI iffI)
    fix c assume "c \<in> set (block_edges bs) `` {p}"
    then obtain cs' where "(p, cs') \<in> set bs" "c \<in> set cs'" unfolding Image_singleton_iff in_block_edges by blast
    with e show "c \<in> set cs" by blast
  next
    fix c assume "c \<in> set cs"
    with assms(2) show "c \<in> set (block_edges bs) `` {p}" unfolding Image_singleton_iff in_block_edges by blast
  qed
qed

lemma block_no_children:
  assumes "p \<notin> fst ` set bs"
  shows "set (block_edges bs) `` {p} = {}"
proof -
  have "(p, c) \<notin> set (block_edges bs)" for c
    unfolding in_block_edges using assms by force
  then show ?thesis by blast
qed

lemma single_parent_distinct: "distinct (map snd es) \<Longrightarrow> single_parent (set es)"
  unfolding single_parent_def
proof (intro allI impI)
  fix a b m assume d: "distinct (map snd es)" and a: "(a, m) \<in> set es" and b: "(b, m) \<in> set es"
  from d have "inj_on snd (set es)" by (simp add: distinct_map)
  from inj_onD [OF this _ a b] have "(a, m) = (b, m)" by simp
  then show "a = b" by simp
qed

lemma bfs_children_have_later_blocks:
  assumes "bfs_blocks g [s] [s] = b1 @ (p, cs) # b2"
  shows "set cs \<subseteq> fst ` set b2"
proof
  fix c assume c: "c \<in> set cs"
  let ?bs = "bfs_blocks g [s] [s]"
  have keys: "map fst ?bs = s # targets ?bs" by (rule bfs_blocks_root [THEN conjunct1])
  have tg: "distinct (targets b1 @ cs @ targets b2)" "s \<notin> set (targets b1 @ cs @ targets b2)"
    using bfs_targets [of g "[s]" "[s]"] assms by auto
  have "c \<in> set (map fst ?bs)" unfolding keys using assms c by simp
  then have "c \<in> fst ` set b1 \<or> c = p \<or> c \<in> fst ` set b2" using assms by auto
  moreover have "c \<notin> fst ` set b1"
  proof
    assume "c \<in> fst ` set b1"
    then obtain cs' where "(c, cs') \<in> set b1" by force
    then obtain x y where x: "b1 = x @ (c, cs') # y" by (auto simp: in_set_conv_decomp)
    then have "?bs = x @ (c, cs') # (y @ (p, cs) # b2)" using assms by simp
    from bfs_key_origin [OF this] have "c \<in> set [s] \<union> set (targets x)" .
    moreover have "c \<noteq> s" using tg(2) c by auto
    moreover have "c \<notin> set (targets x)" using tg(1) c x by auto
    ultimately show False by simp
  qed
  moreover have "c \<noteq> p"
  proof
    assume "c = p"
    from bfs_key_origin [OF assms] have "p \<in> set [s] \<union> set (targets b1)" .
    moreover have "c \<noteq> s" using tg(2) c by auto
    moreover have "c \<notin> set (targets b1)" using tg(1) c by auto
    ultimately show False using \<open>c = p\<close> by simp
  qed
  ultimately show "c \<in> fst ` set b2" by blast
qed

text \<open>The blocks of the traversal from the root, as a forest.\<close>

lemma bfs_forest:
  fixes g s
  defines "bs \<equiv> bfs_blocks g [s] [s]"
  shows "single_parent (set (block_edges bs))" and "acyclic (set (block_edges bs))"
    and "\<And>p c. (p, c) \<in> set (block_edges bs) \<Longrightarrow> c \<in> fst ` set bs \<and> rank bs c < rank bs p"
proof -
  have dk: "distinct (map fst bs)" unfolding bs_def by (rule bfs_blocks_root [THEN conjunct2])
  show "single_parent (set (block_edges bs))"
  proof (rule single_parent_distinct)
    show "distinct (map snd (block_edges bs))"
      unfolding block_edges_targets bs_def by (rule bfs_targets [THEN conjunct1])
  qed
  show r: "c \<in> fst ` set bs \<and> rank bs c < rank bs p" if "(p, c) \<in> set (block_edges bs)" for p c
  proof -
    from that obtain cs where "(p, cs) \<in> set bs" "c \<in> set cs" unfolding in_block_edges by blast
    then obtain b1 b2 where b: "bs = b1 @ (p, cs) # b2" by (auto simp: in_set_conv_decomp)
    from bfs_children_have_later_blocks [OF b [unfolded bs_def]] \<open>c \<in> set cs\<close>
    have c: "c \<in> fst ` set b2" by blast
    from rank_child [OF b dk c] c b show ?thesis by auto
  qed
  show "acyclic (set (block_edges bs))"
  proof (rule acyclicI_order [where f = "rank bs"])
    fix a b assume "(a, b) \<in> set (block_edges bs)"
    from r [OF this] show "rank bs b < rank bs a" by simp
  qed
qed

lemma successor_count_fn_children:
  "successor_count_fn (Suc l) d n acc =
     (case successor_counts l d (children_in d n) acc of
        Inl e \<Rightarrow> Inl e
      | Inr (counts, acc') \<Rightarrow> Inr (sum_list counts + 1, AList.update n (sum_list counts) acc'))"
  by (cases "map_of d n") (simp_all add: children_in_def)

text \<open>
  \<open>counted E acc S acc'\<close>: the dictionary \<open>acc'\<close> is \<open>acc\<close> with the number of
  descendants entered for every node of \<open>S\<close>.
\<close>

definition counted :: "(node_id \<times> node_id) set \<Rightarrow> (node_id \<times> int) list \<Rightarrow> node_id set \<Rightarrow>
    (node_id \<times> int) list \<Rightarrow> bool" where
  "counted E acc S acc' =
     (distinct (map fst acc') \<and>
      (\<forall>m. map_of acc' m = (if m \<in> S then Some (int (card (E\<^sup>+ `` {m}))) else map_of acc m)))"

lemma counted_empty: "distinct (map fst acc) \<Longrightarrow> counted E acc {} acc"
  by (simp add: counted_def)

lemma counted_trans:
  "counted E acc S1 acc1 \<Longrightarrow> counted E acc1 S2 acc2 \<Longrightarrow> counted E acc (S1 \<union> S2) acc2"
  by (simp add: counted_def)

lemma counted_update:
  assumes "counted E acc S acc'" and "v = int (card (E\<^sup>+ `` {n}))"
  shows "counted E acc (insert n S) (AList.update n v acc')"
  using assms by (simp add: counted_def distinct_update update_conv')

definition counts_node :: "(node_id \<times> node_id) set \<Rightarrow> (node_id \<times> node_id list) list \<Rightarrow>
    (node_id \<Rightarrow> nat) \<Rightarrow> nat \<Rightarrow> bool" where
  "counts_node E d r l =
     (\<forall>n acc. 0 < r n \<longrightarrow> r n \<le> l \<longrightarrow> distinct (map fst acc) \<longrightarrow>
        (\<exists>acc'. successor_count_fn l d n acc = Inr (int (card (E\<^sup>+ `` {n})) + 1, acc') \<and>
                counted E acc (E\<^sup>* `` {n}) acc'))"

lemma counts_list:
  assumes "counts_node E d r l"
  shows "(\<forall>c\<in>set cs. 0 < r c \<and> r c \<le> l) \<Longrightarrow> distinct (map fst acc) \<Longrightarrow>
         \<exists>acc'. successor_counts l d cs acc = Inr (map (\<lambda>c. int (card (E\<^sup>+ `` {c})) + 1) cs, acc') \<and>
                counted E acc (\<Union>c\<in>set cs. E\<^sup>* `` {c}) acc'"
proof (induction cs arbitrary: acc)
  case Nil
  then show ?case by (simp add: counted_empty)
next
  case (Cons c cs)
  from Cons.prems have rc: "0 < r c" "r c \<le> l" by simp_all
  from assms rc Cons.prems(2) obtain acc1 where
    n: "successor_count_fn l d c acc = Inr (int (card (E\<^sup>+ `` {c})) + 1, acc1)"
    and c1: "counted E acc (E\<^sup>* `` {c}) acc1"
    unfolding counts_node_def by blast
  have d1: "distinct (map fst acc1)" using c1 by (simp add: counted_def)
  have "\<forall>c\<in>set cs. 0 < r c \<and> r c \<le> l" using Cons.prems(1) by simp
  from Cons.IH [OF this d1] obtain acc2 where
    l: "successor_counts l d cs acc1 = Inr (map (\<lambda>c. int (card (E\<^sup>+ `` {c})) + 1) cs, acc2)"
    and c2: "counted E acc1 (\<Union>c\<in>set cs. E\<^sup>* `` {c}) acc2"
    by blast
  have "counted E acc (E\<^sup>* `` {c} \<union> (\<Union>c\<in>set cs. E\<^sup>* `` {c})) acc2"
    by (rule counted_trans [OF c1 c2])
  then have "counted E acc (\<Union>c\<in>set (c # cs). E\<^sup>* `` {c}) acc2" by simp
  moreover have "successor_counts l d (c # cs) acc =
      Inr (map (\<lambda>c. int (card (E\<^sup>+ `` {c})) + 1) (c # cs), acc2)"
    using n l by simp
  ultimately show ?case by blast
qed

lemma counts_node_all:
  assumes up: "single_parent E" and acyc: "acyclic E" and fin: "finite E"
    and ch: "\<And>n. distinct (children_in d n) \<and> E `` {n} = set (children_in d n)"
    and rk: "\<And>p c. (p, c) \<in> E \<Longrightarrow> 0 < r c \<and> r c < r p"
  shows "counts_node E d r l"
proof (induction l)
  case 0
  show ?case by (simp add: counts_node_def)
next
  case (Suc l)
  show ?case
    unfolding counts_node_def
  proof (intro allI impI)
    fix n :: node_id and acc :: "(node_id \<times> int) list"
    assume rn: "0 < r n" "r n \<le> Suc l" and da: "distinct (map fst acc)"
    let ?cs = "children_in d n"
    have "\<forall>c\<in>set ?cs. 0 < r c \<and> r c \<le> l"
    proof
      fix c assume "c \<in> set ?cs"
      then have "(n, c) \<in> E" using ch [of n] by blast
      from rk [OF this] rn(2) show "0 < r c \<and> r c \<le> l" by simp
    qed
    from counts_list [OF Suc this da] obtain acc1 where
      l: "successor_counts l d ?cs acc = Inr (map (\<lambda>c. int (card (E\<^sup>+ `` {c})) + 1) ?cs, acc1)"
      and c1: "counted E acc (\<Union>c\<in>set ?cs. E\<^sup>* `` {c}) acc1"
      by blast
    have sum: "sum_list (map (\<lambda>c. int (card (E\<^sup>+ `` {c})) + 1) ?cs) = int (card (E\<^sup>+ `` {n}))"
      using forest_card [OF up acyc fin, of n ?cs] ch [of n] by simp
    have "E\<^sup>* `` {n} = insert n (\<Union>c\<in>set ?cs. E\<^sup>* `` {c})"
      using subtree_insert [of E n] descendants_unfold [of E n] ch [of n] by simp
    with counted_update [OF c1 sum]
    have "counted E acc (E\<^sup>* `` {n})
        (AList.update n (sum_list (map (\<lambda>c. int (card (E\<^sup>+ `` {c})) + 1) ?cs)) acc1)"
      by simp
    moreover have "successor_count_fn (Suc l) d n acc =
        Inr (int (card (E\<^sup>+ `` {n})) + 1,
             AList.update n (sum_list (map (\<lambda>c. int (card (E\<^sup>+ `` {c})) + 1) ?cs)) acc1)"
      unfolding successor_count_fn_children l using sum by simp
    ultimately show "\<exists>acc'. successor_count_fn (Suc l) d n acc = Inr (int (card (E\<^sup>+ `` {n})) + 1, acc') \<and>
                counted E acc (E\<^sup>* `` {n}) acc'"
      by blast
  qed
qed

lemma map_of_nonempty_blocks:
  "distinct (map fst bs) \<Longrightarrow>
   map_of (filter (\<lambda>(p, cs). cs \<noteq> []) bs) n =
     (case map_of bs n of None \<Rightarrow> None | Some cs \<Rightarrow> if cs \<noteq> [] then Some cs else None)"
proof (induction bs)
  case Nil
  show ?case by simp
next
  case (Cons b bs)
  obtain p cs where b: "b = (p, cs)" by (cases b)
  have ih: "map_of (filter (\<lambda>(p, cs). cs \<noteq> []) bs) n =
     (case map_of bs n of None \<Rightarrow> None | Some cs \<Rightarrow> if cs \<noteq> [] then Some cs else None)"
    using Cons by simp
  show ?case
  proof (cases "p = n")
    case False
    then show ?thesis using ih b by simp
  next
    case True
    then have "n \<notin> fst ` set bs" using Cons.prems b by simp
    then have "map_of bs n = None" by (simp add: map_of_eq_None_iff)
    with ih True b show ?thesis by simp
  qed
qed

lemma bfs_children_in:
  assumes "bfs_successors g s = Inr ss"
  shows "children_in ss n = (case map_of (bfs_blocks g [s] [s]) n of None \<Rightarrow> [] | Some cs \<Rightarrow> cs)"
proof -
  let ?bs = "bfs_blocks g [s] [s]"
  let ?fs = "filter (\<lambda>(p, cs). cs \<noteq> []) ?bs"
  have dk: "distinct (map fst ?bs)" by (rule bfs_blocks_root [THEN conjunct2])
  have ss: "ss = (if ?fs = [] then [(s, [])] else ?fs)"
    using assms by (simp add: bfs_successors_def Let_def split: if_splits)
  have f: "children_in ?fs n = (case map_of ?bs n of None \<Rightarrow> [] | Some cs \<Rightarrow> cs)"
    unfolding children_in_def map_of_nonempty_blocks [OF dk]
    by (simp split: option.splits)
  show ?thesis
  proof (cases "?fs = []")
    case False
    with ss f show ?thesis by simp
  next
    case True
    then have "children_in ?fs n = []" by (simp add: children_in_def)
    moreover have "children_in [(s, [])] n = []" by (simp add: children_in_def)
    ultimately show ?thesis using ss True f by simp
  qed
qed

lemma block_distinct_children:
  assumes "distinct (targets bs)" and "(n, cs) \<in> set bs"
  shows "distinct cs"
proof -
  from assms(2) obtain b1 b2 where "bs = b1 @ (n, cs) # b2" by (auto simp: in_set_conv_decomp)
  with assms(1) show ?thesis by simp
qed

lemma bfs_children_edges:
  assumes "bfs_successors g s = Inr ss"
  shows "distinct (children_in ss n) \<and>
         set (block_edges (bfs_blocks g [s] [s])) `` {n} = set (children_in ss n)"
proof -
  let ?bs = "bfs_blocks g [s] [s]"
  have dk: "distinct (map fst ?bs)" by (rule bfs_blocks_root [THEN conjunct2])
  have dt: "distinct (targets ?bs)" by (rule bfs_targets [THEN conjunct1])
  show ?thesis
  proof (cases "map_of ?bs n")
    case None
    then have "n \<notin> fst ` set ?bs" by (simp add: map_of_eq_None_iff)
    from block_no_children [OF this] None show ?thesis
      unfolding bfs_children_in [OF assms] by simp
  next
    case (Some cs)
    then have m: "(n, cs) \<in> set ?bs" by (rule map_of_SomeD)
    from block_children [OF dk m] block_distinct_children [OF dt m] Some show ?thesis
      unfolding bfs_children_in [OF assms] by simp
  qed
qed

lemma bfs_all_reached:
  fixes g s
  defines "bs \<equiv> bfs_blocks g [s] [s]"
  shows "(set (block_edges bs))\<^sup>+ `` {s} = set (targets bs)"
proof -
  let ?E = "set (block_edges bs)"
  have keys: "map fst bs = s # targets bs" unfolding bs_def by (rule bfs_blocks_root [THEN conjunct1])
  have sub: "?E\<^sup>+ `` {s} \<subseteq> set (targets bs)"
  proof
    fix x assume "x \<in> ?E\<^sup>+ `` {s}"
    then have "(s, x) \<in> ?E\<^sup>+" by simp
    then obtain k where "(k, x) \<in> ?E" by (meson tranclD2)
    then have "x \<in> snd ` ?E" by force
    then show "x \<in> set (targets bs)" using block_edges_targets [of bs] by (metis list.set_map)
  qed
  have reach: "c \<in> set (targets bs) \<longrightarrow> (s, c) \<in> ?E\<^sup>+" for c
  proof (induction "length bs - rank bs c" arbitrary: c rule: less_induct)
    case less
    show ?case
    proof
      assume "c \<in> set (targets bs)"
      then have "c \<in> snd ` ?E" using block_edges_targets [of bs] by (metis list.set_map)
      then obtain p where e: "(p, c) \<in> ?E" by force
      from bfs_forest(3) [OF e [unfolded bs_def]] have r: "rank bs c < rank bs p" unfolding bs_def by simp
      from e obtain cs where "(p, cs) \<in> set bs" unfolding in_block_edges by blast
      then have "p \<in> set (map fst bs)" by force
      then have "p = s \<or> p \<in> set (targets bs)" unfolding keys by simp
      then show "(s, c) \<in> ?E\<^sup>+"
      proof
        assume "p = s"
        with e show ?thesis by blast
      next
        assume pt: "p \<in> set (targets bs)"
        have "length bs - rank bs p < length bs - rank bs c"
          using r rank_le [of bs p] by simp
        from less [OF this] pt have "(s, p) \<in> ?E\<^sup>+" by simp
        with e show ?thesis by (meson trancl.trancl_into_trancl)
      qed
    qed
  qed
  show ?thesis using sub reach by blast
qed

lemma store_counts_result:
  "distinct (map fst al) \<Longrightarrow> fst ` set al \<subseteq> fst ` set (node_list g) \<Longrightarrow>
   \<exists>g'. store_counts g al = Inr g' \<and> map fst (node_list g') = map fst (node_list g) \<and>
     (\<forall>m. map_of (node_list g') m =
        (case map_of al m of
           None \<Rightarrow> map_of (node_list g) m
         | Some c \<Rightarrow> map_option (\<lambda>a. a\<lparr>successor_count := Some c\<rparr>) (map_of (node_list g) m)))"
proof (induction al arbitrary: g)
  case Nil
  show ?case by simp
next
  case (Cons x al)
  obtain n c where x: "x = (n, c)" by (cases x)
  have nk: "n \<in> fst ` set (node_list g)" using Cons.prems(2) x by simp
  then obtain a where a: "map_of (node_list g) n = Some a"
    by (cases "map_of (node_list g) n") (auto simp: map_of_eq_None_iff)
  define g1 where "g1 = g\<lparr>node_list := AList.update n (a\<lparr>successor_count := Some c\<rparr>) (node_list g)\<rparr>"
  have s1: "set_successor_count g n c = Inr g1" by (simp add: set_successor_count_def a g1_def)
  have k1: "map fst (node_list g1) = map fst (node_list g)"
    using nk by (simp add: g1_def update_keys)
  have m1: "map_of (node_list g1) = (map_of (node_list g))(n \<mapsto> a\<lparr>successor_count := Some c\<rparr>)"
    by (simp add: g1_def update_conv')
  have d: "distinct (map fst al)" and nn: "n \<notin> fst ` set al" using Cons.prems(1) x by simp_all
  have "fst ` set al \<subseteq> fst ` set (node_list g1)"
  proof -
    have "fst ` set (node_list g1) = fst ` set (node_list g)" using k1 by (metis list.set_map)
    with Cons.prems(2) show ?thesis by simp
  qed
  from Cons.IH [OF d this] obtain g' where
    r: "store_counts g1 al = Inr g'" and k: "map fst (node_list g') = map fst (node_list g1)"
    and m: "\<And>m. map_of (node_list g') m =
        (case map_of al m of
           None \<Rightarrow> map_of (node_list g1) m
         | Some c \<Rightarrow> map_option (\<lambda>a. a\<lparr>successor_count := Some c\<rparr>) (map_of (node_list g1) m))"
    by blast
  have st: "store_counts g (x # al) = Inr g'" using s1 r x by simp
  have mm: "map_of (node_list g') m =
        (case map_of (x # al) m of
           None \<Rightarrow> map_of (node_list g) m
         | Some c \<Rightarrow> map_option (\<lambda>a. a\<lparr>successor_count := Some c\<rparr>) (map_of (node_list g) m))" for m
  proof (cases "m = n")
    case True
    have "map_of al n = None" using nn by (simp add: map_of_eq_None_iff)
    with m [of n] m1 a True x show ?thesis by (simp split: option.splits)
  next
    case False
    then have "map_of (node_list g1) m = map_of (node_list g) m" unfolding m1 by simp
    with m [of m] False x show ?thesis by (simp split: option.splits)
  qed
  from st k k1 mm show ?case by (intro exI [of _ g']) simp
qed

end
